theory Spec2Isabelle
  imports Main "HOL-Library.AList" "HOL-Library.Word"
begin

section \<open>The gateway node registry (src/gateway/node-registry.ts)\<close>

text \<open>
  The registry class keeps four JavaScript \<open>Map\<close>s and one counter. A JavaScript
  \<open>Map\<close> iterates in insertion order, \<open>set\<close> on a present key keeps the key's position and
  \<open>delete\<close> removes the entry: that is an association list with distinct keys under
  \<open>AList.update\<close>, \<open>AList.delete\<close> and \<open>map_of\<close>. The order is kept because the two loops of
  \<open>unregister\<close> run over the entries in that order.

  Numbers are modelled as \<open>int\<close>: the wire fields \<open>totalBytes\<close>, \<open>chunkBytes\<close>, \<open>chunkCount\<close>,
  \<open>index\<close> and \<open>bytes\<close> are integer valued, and nothing in the class rejects a negative one.
  JavaScript adds and subtracts integers exactly as long as they stay within the safe
  integers, up to \<open>Number.MAX_SAFE_INTEGER\<close>; above it the counter \<open>inflightBytes\<close> would round.
  A payload of type \<open>unknown\<close> is carried as its JSON text.
\<close>

definition max_safe_integer :: int where
  "max_safe_integer = 2 ^ 53 - 1"

type_synonym byte = "8 word"

subsection \<open>Data\<close>

record ConnectParams =
  device_id :: "string option"
  client_id :: string
  client_displayName :: "string option"
  client_platform :: "string option"
  client_version :: "string option"
  client_deviceFamily :: "string option"
  client_modelIdentifier :: "string option"
  connect_coreVersion :: "string option"
  connect_uiVersion :: "string option"
  connect_caps :: "string list option"
  connect_commands :: "string list option"
  connect_permissions :: "(string \<times> bool) list option"
  connect_pathEnv :: "string option"

record GatewayWsClient =
  connect :: ConnectParams
  client_connId :: string

record NodeSession =
  nodeId :: string
  connId :: string
  client :: GatewayWsClient
  displayName :: "string option"
  platform :: "string option"
  version :: "string option"
  coreVersion :: "string option"
  uiVersion :: "string option"
  deviceFamily :: "string option"
  modelIdentifier :: "string option"
  remoteIp :: "string option"
  caps :: "string list"
  commands :: "string list"
  permissions :: "(string \<times> bool) list option"
  pathEnv :: "string option"
  connectedAtMs :: int

text \<open>
  A \<open>PendingInvoke\<close> also holds the \<open>resolve\<close> and \<open>reject\<close> capabilities of the caller's promise
  and the handle of its timer. Both belong to the request id, so the registry model keeps
  them beside the maps: \<open>timers\<close> is the set of request ids whose timer is armed, and
  \<open>settlements\<close> is the trace of the calls of \<open>resolve\<close> and \<open>reject\<close>, in the order they were made.
\<close>

record PendingInvoke =
  p_nodeId :: string
  command :: string

record PendingInvokeTransfer =
  t_nodeId :: string
  totalBytes :: int
  chunkBytes :: int
  chunkCount :: int
  nextIndex :: int
  bytesReceived :: int
  sha256 :: string
  hash :: "byte list"
  chunks :: "byte list list"

datatype InvokeTransferFailureReason =
  unknown_invoke_id
  | payload_too_large
  | chunk_out_of_order
  | chunk_bytes_mismatch
  | hash_mismatch

datatype InvokeTransferResult =
  TransferOk
  | TransferFailed InvokeTransferFailureReason string

record InvokeError =
  code :: "string option"
  message :: "string option"

record NodeInvokeResult =
  ok :: bool
  payload :: "string option"
  payloadJSON :: "string option"
  error :: "InvokeError option"

datatype settlement =
  Resolved NodeInvokeResult
  | Rejected string

record NodeRegistry =
  nodesById :: "(string \<times> NodeSession) list"
  nodesByConn :: "(string \<times> string) list"
  pendingInvokes :: "(string \<times> PendingInvoke) list"
  invokeTransfers :: "(string \<times> PendingInvokeTransfer) list"
  inflightBytes :: int
  timers :: "string set"
  settlements :: "(string \<times> settlement) list"

definition new_NodeRegistry :: NodeRegistry where
  "new_NodeRegistry =
     \<lparr>nodesById = [], nodesByConn = [], pendingInvokes = [], invokeTransfers = [],
      inflightBytes = 0, timers = {}, settlements = []\<rparr>"

text \<open>
  The library functions the class calls are parameters of the model: \<open>Buffer.from(s, "base64")\<close>,
  the SHA-256 digest in hexadecimal of the bytes fed to a hash object, and
  \<open>Buffer.toString("utf8")\<close>. The incremental hash object is modelled by the bytes it has been
  fed (the field \<open>hash\<close>); its digest is \<open>sha256_hex\<close> of them.
\<close>

record node_lib =
  base64_decode :: "string \<Rightarrow> byte list"
  sha256_hex :: "byte list \<Rightarrow> string"
  utf8_decode :: "byte list \<Rightarrow> string"

text \<open>\<open>String.prototype.toLowerCase\<close> on the ASCII letters, where hexadecimal digests live.\<close>

definition lower_char :: "char \<Rightarrow> char" where
  "lower_char c =
     (case map_of (zip ''ABCDEFGHIJKLMNOPQRSTUVWXYZ'' ''abcdefghijklmnopqrstuvwxyz'') c of
        Some l \<Rightarrow> l
      | None \<Rightarrow> c)"

definition toLowerCase :: "string \<Rightarrow> string" where
  "toLowerCase s = map lower_char s"

text \<open>
  \<open>Buffer.concat(list, totalLength)\<close>: the buffers one after the other, cut or filled with
  zeros to \<open>totalLength\<close> bytes.
\<close>

definition Buffer_concat :: "byte list list \<Rightarrow> int \<Rightarrow> byte list" where
  "Buffer_concat list totalLength =
     take (nat totalLength) (concat list @ replicate (nat totalLength - length (concat list)) 0)"

subsection \<open>register and unregister\<close>

text \<open>\<open>connect.device?.id ?? connect.client.id\<close>\<close>

definition client_nodeId :: "GatewayWsClient \<Rightarrow> string" where
  "client_nodeId cl =
     (case device_id (connect cl) of Some d \<Rightarrow> d | None \<Rightarrow> client_id (connect cl))"

definition register :: "NodeRegistry \<Rightarrow> GatewayWsClient \<Rightarrow> string option \<Rightarrow> int
    \<Rightarrow> NodeRegistry \<times> NodeSession" where
  "register r cl opts_remoteIp now =
     (let cn = connect cl;
          nodeId' = client_nodeId cl;
          caps' = (case connect_caps cn of Some cs \<Rightarrow> cs | None \<Rightarrow> []);
          commands' = (case connect_commands cn of Some cs \<Rightarrow> cs | None \<Rightarrow> []);
          session = \<lparr>nodeId = nodeId', connId = client_connId cl, client = cl,
            displayName = client_displayName cn, platform = client_platform cn,
            version = client_version cn, coreVersion = connect_coreVersion cn,
            uiVersion = connect_uiVersion cn, deviceFamily = client_deviceFamily cn,
            modelIdentifier = client_modelIdentifier cn, remoteIp = opts_remoteIp,
            caps = caps', commands = commands', permissions = connect_permissions cn,
            pathEnv = connect_pathEnv cn, connectedAtMs = now\<rparr>;
          r1 = r\<lparr>nodesById := AList.update nodeId' session (nodesById r)\<rparr>;
          r2 = r1\<lparr>nodesByConn := AList.update (client_connId cl) nodeId' (nodesByConn r1)\<rparr>
      in (r2, session))"

definition clearInvokeTransfer :: "NodeRegistry \<Rightarrow> string \<Rightarrow> NodeRegistry" where
  "clearInvokeTransfer r id' =
     (case map_of (invokeTransfers r) id' of
        None \<Rightarrow> r
      | Some transfer \<Rightarrow>
          r\<lparr>invokeTransfers := AList.delete id' (invokeTransfers r),
            inflightBytes := max 0 (inflightBytes r - totalBytes transfer)\<rparr>)"

text \<open>
  The bodies of the two \<open>for\<close> loops of \<open>unregister\<close>, one entry at a time, and the message of
  the \<open>Error\<close> the first loop rejects with.
\<close>

definition node_disconnected :: "string \<Rightarrow> string" where
  "node_disconnected command' = ''node disconnected ('' @ command' @ '')''"

definition unregister_pending :: "string \<Rightarrow> string \<times> PendingInvoke \<Rightarrow> NodeRegistry
    \<Rightarrow> NodeRegistry" where
  "unregister_pending nodeId' e r =
     (if p_nodeId (snd e) \<noteq> nodeId' then r
      else r\<lparr>timers := timers r - {fst e},
             settlements := settlements r
               @ [(fst e, Rejected (node_disconnected (command (snd e))))],
             pendingInvokes := AList.delete (fst e) (pendingInvokes r)\<rparr>)"

definition unregister_transfer :: "string \<Rightarrow> string \<times> PendingInvokeTransfer \<Rightarrow> NodeRegistry
    \<Rightarrow> NodeRegistry" where
  "unregister_transfer nodeId' e r =
     (if t_nodeId (snd e) \<noteq> nodeId' then r else clearInvokeTransfer r (fst e))"

text \<open>
  \<open>if (!nodeId) return null\<close> also leaves when the stored node id is the empty string.
  Each loop deletes only the entry it is visiting, so it visits every entry that the map
  held when the loop began, once, in order.
\<close>

definition unregister :: "NodeRegistry \<Rightarrow> string \<Rightarrow> NodeRegistry \<times> string option" where
  "unregister r connId' =
     (case map_of (nodesByConn r) connId' of
        None \<Rightarrow> (r, None)
      | Some nodeId' \<Rightarrow>
          if nodeId' = [] then (r, None)
          else
            let r1 = r\<lparr>nodesByConn := AList.delete connId' (nodesByConn r)\<rparr>;
                r2 = r1\<lparr>nodesById := AList.delete nodeId' (nodesById r1)\<rparr>;
                r3 = fold (unregister_pending nodeId') (pendingInvokes r2) r2;
                r4 = fold (unregister_transfer nodeId') (invokeTransfers r3) r3
            in (r4, Some nodeId'))"

definition listConnected :: "NodeRegistry \<Rightarrow> NodeSession list" where
  "listConnected r = map snd (nodesById r)"

definition get :: "NodeRegistry \<Rightarrow> string \<Rightarrow> NodeSession option" where
  "get r nodeId' = map_of (nodesById r) nodeId'"

subsection \<open>invoke and its resolution\<close>

definition invoke_error :: "string \<Rightarrow> string \<Rightarrow> NodeInvokeResult" where
  "invoke_error c m =
     \<lparr>ok = False, payload = None, payloadJSON = None,
      error = Some \<lparr>code = Some c, message = Some m\<rparr>\<rparr>"

text \<open>
  \<open>invoke\<close> returns at once (second component \<open>Some\<close>) when the node is absent or the send
  fails; otherwise it stays suspended on its promise (\<open>None\<close>) with a pending entry and an
  armed timer. \<open>requestId\<close> is what \<open>randomUUID()\<close> returned and \<open>sent\<close> tells whether
  \<open>socket.send\<close> returned without throwing; the frame itself is not recorded.
\<close>

definition invoke :: "NodeRegistry \<Rightarrow> string \<Rightarrow> string \<Rightarrow> string \<Rightarrow> bool
    \<Rightarrow> NodeRegistry \<times> NodeInvokeResult option" where
  "invoke r nodeId' command' requestId sent =
     (case map_of (nodesById r) nodeId' of
        None \<Rightarrow> (r, Some (invoke_error ''NOT_CONNECTED'' ''node not connected''))
      | Some node \<Rightarrow>
          if \<not> sent
          then (r, Some (invoke_error ''UNAVAILABLE'' ''failed to send invoke to node''))
          else
            (r\<lparr>timers := insert requestId (timers r),
               pendingInvokes :=
                 AList.update requestId \<lparr>p_nodeId = nodeId', command = command'\<rparr>
                   (pendingInvokes r)\<rparr>,
             None))"

text \<open>The callback of the timer armed by \<open>invoke\<close>; a timer that is not armed cannot fire.\<close>

definition invoke_timeout :: "NodeRegistry \<Rightarrow> string \<Rightarrow> NodeRegistry" where
  "invoke_timeout r requestId =
     (if requestId \<notin> timers r then r
      else
        let r1 = r\<lparr>timers := timers r - {requestId}\<rparr>;
            r2 = r1\<lparr>pendingInvokes := AList.delete requestId (pendingInvokes r1)\<rparr>;
            r3 = clearInvokeTransfer r2 requestId
        in r3\<lparr>settlements := settlements r3
              @ [(requestId, Resolved (invoke_error ''TIMEOUT'' ''node invoke timed out''))]\<rparr>)"

definition handleInvokeResult :: "NodeRegistry \<Rightarrow> string \<Rightarrow> string \<Rightarrow> bool \<Rightarrow> string option
    \<Rightarrow> string option \<Rightarrow> InvokeError option \<Rightarrow> NodeRegistry \<times> bool" where
  "handleInvokeResult r id' nodeId' ok' payload' payloadJSON' error' =
     (case map_of (pendingInvokes r) id' of
        None \<Rightarrow> (r, False)
      | Some pending \<Rightarrow>
          if p_nodeId pending \<noteq> nodeId' then (r, False)
          else
            let r1 = r\<lparr>timers := timers r - {id'}\<rparr>;
                r2 = r1\<lparr>pendingInvokes := AList.delete id' (pendingInvokes r1)\<rparr>;
                r3 = clearInvokeTransfer r2 id'
            in (r3\<lparr>settlements := settlements r3
                   @ [(id', Resolved \<lparr>ok = ok', payload = payload',
                          payloadJSON = payloadJSON', error = error'\<rparr>)]\<rparr>,
                True))"

definition resolveInvokeError :: "NodeRegistry \<Rightarrow> string \<Rightarrow> string \<Rightarrow> InvokeError
    \<Rightarrow> NodeRegistry" where
  "resolveInvokeError r id' nodeId' err =
     fst (handleInvokeResult r id' nodeId' False None None (Some err))"

definition invalid_request :: "string \<Rightarrow> InvokeError" where
  "invalid_request m = \<lparr>code = Some ''INVALID_REQUEST'', message = Some m\<rparr>"

subsection \<open>Chunked transfer of a result\<close>

text \<open>
  \<open>params.sha256\<close> is declared a string, but nothing checks that it is one, and the start call
  of src/gateway/node-registry.test.ts passes none. \<open>None\<close> stands for a value that is not a
  string: \<open>params.sha256.toLowerCase()\<close> (line 254) then throws a \<open>TypeError\<close> while the
  argument of \<open>invokeTransfers.set\<close> is built, after \<open>inflightBytes += totalBytes\<close> (line 246)
  has run. The registry is returned as the throw leaves it.
\<close>

datatype js_error = TypeError

definition startInvokeResultTransfer :: "NodeRegistry \<Rightarrow> string \<Rightarrow> string \<Rightarrow> int \<Rightarrow> int \<Rightarrow> int
    \<Rightarrow> string option \<Rightarrow> int \<Rightarrow> int \<Rightarrow> NodeRegistry \<times> (js_error + InvokeTransferResult)" where
  "startInvokeResultTransfer r id' nodeId' totalBytes' chunkBytes' chunkCount' sha256'
       maxInvokeResultBytes maxInflightBytes =
     (if (case map_of (pendingInvokes r) id' of
            None \<Rightarrow> True | Some pending \<Rightarrow> p_nodeId pending \<noteq> nodeId')
      then (r, Inr (TransferFailed unknown_invoke_id ''unknown invoke id''))
      else if map_of (invokeTransfers r) id' \<noteq> None
      then (resolveInvokeError r id' nodeId' (invalid_request ''chunk out of order''),
            Inr (TransferFailed chunk_out_of_order ''chunk out of order''))
      else if totalBytes' > maxInvokeResultBytes
      then (resolveInvokeError r id' nodeId' (invalid_request ''payload too large''),
            Inr (TransferFailed payload_too_large ''payload too large''))
      else if inflightBytes r + totalBytes' > maxInflightBytes
      then (resolveInvokeError r id' nodeId' (invalid_request ''payload too large''),
            Inr (TransferFailed payload_too_large ''payload too large''))
      else
        (case sha256' of
           None \<Rightarrow> (r\<lparr>inflightBytes := inflightBytes r + totalBytes'\<rparr>, Inl TypeError)
         | Some digest \<Rightarrow>
             (r\<lparr>inflightBytes := inflightBytes r + totalBytes',
                invokeTransfers :=
                  AList.update id'
                    \<lparr>t_nodeId = nodeId', totalBytes = totalBytes', chunkBytes = chunkBytes',
                     chunkCount = chunkCount', nextIndex = 0, bytesReceived = 0,
                     sha256 = toLowerCase digest, hash = [], chunks = []\<rparr>
                    (invokeTransfers r)\<rparr>,
              Inr TransferOk)))"

text \<open>The four assignments that take a chunk into the transfer (lines 302 to 305).\<close>

definition append_chunk :: "PendingInvokeTransfer \<Rightarrow> byte list \<Rightarrow> PendingInvokeTransfer" where
  "append_chunk transfer decoded =
     transfer\<lparr>bytesReceived := bytesReceived transfer + int (length decoded),
       nextIndex := nextIndex transfer + 1,
       hash := hash transfer @ decoded,
       chunks := chunks transfer @ [decoded]\<rparr>"

definition handleInvokeResultChunk :: "node_lib \<Rightarrow> NodeRegistry \<Rightarrow> string \<Rightarrow> string \<Rightarrow> int
    \<Rightarrow> string \<Rightarrow> int \<Rightarrow> NodeRegistry \<times> InvokeTransferResult" where
  "handleInvokeResultChunk lib r id' nodeId' index data bytes =
     (case (case map_of (invokeTransfers r) id' of
              None \<Rightarrow> None
            | Some t \<Rightarrow> if t_nodeId t \<noteq> nodeId' then None else Some t) of
        None \<Rightarrow>
          ((case map_of (pendingInvokes r) id' of
              None \<Rightarrow> r
            | Some pending \<Rightarrow>
                if p_nodeId pending = nodeId'
                then resolveInvokeError r id' nodeId' (invalid_request ''unknown invoke id'')
                else r),
           TransferFailed unknown_invoke_id ''unknown invoke id'')
      | Some transfer \<Rightarrow>
          if index \<noteq> nextIndex transfer \<or> index \<ge> chunkCount transfer
          then (resolveInvokeError r id' nodeId' (invalid_request ''chunk out of order''),
                TransferFailed chunk_out_of_order ''chunk out of order'')
          else
            let decoded = base64_decode lib data in
            if int (length decoded) \<noteq> bytes
            then (resolveInvokeError r id' nodeId' (invalid_request ''chunk bytes mismatch''),
                  TransferFailed chunk_bytes_mismatch ''chunk bytes mismatch'')
            else
              let nextBytes = bytesReceived transfer + int (length decoded) in
              if nextBytes > totalBytes transfer
              then (resolveInvokeError r id' nodeId' (invalid_request ''chunk bytes mismatch''),
                    TransferFailed chunk_bytes_mismatch ''chunk bytes mismatch'')
              else
                let transfer' = append_chunk transfer decoded;
                    r' = r\<lparr>invokeTransfers := AList.update id' transfer' (invokeTransfers r)\<rparr>
                in
                if nextIndex transfer' = chunkCount transfer'
                then
                  if bytesReceived transfer' \<noteq> totalBytes transfer'
                  then (resolveInvokeError r' id' nodeId'
                          (invalid_request ''chunk bytes mismatch''),
                        TransferFailed chunk_bytes_mismatch ''chunk bytes mismatch'')
                  else
                    let digest = toLowerCase (sha256_hex lib (hash transfer')) in
                    if digest \<noteq> sha256 transfer'
                    then (resolveInvokeError r' id' nodeId' (invalid_request ''hash mismatch''),
                          TransferFailed hash_mismatch ''hash mismatch'')
                    else
                      let payloadJSON' =
                            utf8_decode lib
                              (Buffer_concat (chunks transfer') (totalBytes transfer'))
                      in (fst (handleInvokeResult r' id' nodeId' True None
                                 (Some payloadJSON') None),
                          TransferOk)
                else (r', TransferOk))"

definition abortInvokeResultTransfer :: "NodeRegistry \<Rightarrow> string \<Rightarrow> string \<Rightarrow> InvokeError option
    \<Rightarrow> NodeRegistry \<times> bool" where
  "abortInvokeResultTransfer r id' nodeId' error' =
     (if (case map_of (pendingInvokes r) id' of
            None \<Rightarrow> True | Some pending \<Rightarrow> p_nodeId pending \<noteq> nodeId')
      then
        ((case map_of (invokeTransfers r) id' of
            None \<Rightarrow> r
          | Some transfer \<Rightarrow>
              if t_nodeId transfer = nodeId' then clearInvokeTransfer r id' else r),
         False)
      else
        (fst (handleInvokeResult r id' nodeId' False None None
                (Some (case error' of
                         Some e \<Rightarrow> e
                       | None \<Rightarrow> \<lparr>code = Some ''UNAVAILABLE'',
                                   message = Some ''node invoke aborted''\<rparr>))),
         True))"

subsection \<open>Runs of the registry\<close>

text \<open>
  One constructor for each way the registry is entered: the public methods and the timer
  callback. A run applies a list of them, in order, to the registry a fresh
  \<open>new NodeRegistry()\<close> holds.
\<close>

datatype op =
    Register GatewayWsClient "string option" int
  | Unregister string
  | Invoke string string string bool
  | TimerFired string
  | HandleInvokeResult string string bool "string option" "string option" "InvokeError option"
  | StartInvokeResultTransfer string string int int int "string option" int int
  | HandleInvokeResultChunk string string int string int
  | AbortInvokeResultTransfer string string "InvokeError option"

fun apply_op :: "node_lib \<Rightarrow> NodeRegistry \<Rightarrow> op \<Rightarrow> NodeRegistry" where
  "apply_op lib r (Register cl ip now) = fst (register r cl ip now)"
| "apply_op lib r (Unregister c) = fst (unregister r c)"
| "apply_op lib r (Invoke n cmd requestId sent) = fst (invoke r n cmd requestId sent)"
| "apply_op lib r (TimerFired requestId) = invoke_timeout r requestId"
| "apply_op lib r (HandleInvokeResult i n ok' p pj e) = fst (handleInvokeResult r i n ok' p pj e)"
| "apply_op lib r (StartInvokeResultTransfer i n tb cb cc sh mr mi) =
     fst (startInvokeResultTransfer r i n tb cb cc sh mr mi)"
| "apply_op lib r (HandleInvokeResultChunk i n ix d b) =
     fst (handleInvokeResultChunk lib r i n ix d b)"
| "apply_op lib r (AbortInvokeResultTransfer i n e) = fst (abortInvokeResultTransfer r i n e)"

definition run :: "node_lib \<Rightarrow> op list \<Rightarrow> NodeRegistry" where
  "run lib ops = foldl (apply_op lib) new_NodeRegistry ops"

subsection \<open>Observations on a run\<close>

text \<open>
  The connection ids the \<open>register\<close> calls of a run bring, in order; whether every
  \<open>register\<close> of a run finds its node id unregistered; and the entries of the connection
  index whose node id is registered at the moment.
\<close>

fun register_conns :: "op list \<Rightarrow> string list" where
  "register_conns [] = []"
| "register_conns (Register cl ip now # ops) = client_connId cl # register_conns ops"
| "register_conns (_ # ops) = register_conns ops"

fun no_replacement :: "node_lib \<Rightarrow> NodeRegistry \<Rightarrow> op list \<Rightarrow> bool" where
  "no_replacement lib r [] = True"
| "no_replacement lib r (op # ops) =
     ((case op of Register cl ip now \<Rightarrow> get r (client_nodeId cl) = None | _ \<Rightarrow> True)
      \<and> no_replacement lib (apply_op lib r op) ops)"

text \<open>
  The request ids the \<open>invoke\<close> calls of a run draw from \<open>randomUUID()\<close>, whether every start
  frame of a run declares a \<open>totalBytes\<close> that is not negative, whether every start frame of a
  run carries a \<open>sha256\<close> string, whether every start frame of a run is checked against a
  \<open>maxInflightBytes\<close> within the safe integers, and the indices of the chunks for one request
  id that \<open>handleInvokeResultChunk\<close> answered with \<open>{ ok: true }\<close>, in order.
\<close>

fun invoke_ids :: "op list \<Rightarrow> string list" where
  "invoke_ids [] = []"
| "invoke_ids (Invoke n cmd requestId sent # ops) = requestId # invoke_ids ops"
| "invoke_ids (_ # ops) = invoke_ids ops"

fun start_totals_nonneg :: "op list \<Rightarrow> bool" where
  "start_totals_nonneg [] = True"
| "start_totals_nonneg (StartInvokeResultTransfer i n tb cb cc sh mr mi # ops) =
     (0 \<le> tb \<and> start_totals_nonneg ops)"
| "start_totals_nonneg (_ # ops) = start_totals_nonneg ops"

fun start_digests_given :: "op list \<Rightarrow> bool" where
  "start_digests_given [] = True"
| "start_digests_given (StartInvokeResultTransfer i n tb cb cc sh mr mi # ops) =
     (sh \<noteq> None \<and> start_digests_given ops)"
| "start_digests_given (_ # ops) = start_digests_given ops"

fun start_limits_safe :: "op list \<Rightarrow> bool" where
  "start_limits_safe [] = True"
| "start_limits_safe (StartInvokeResultTransfer i n tb cb cc sh mr mi # ops) =
     (mi \<le> max_safe_integer \<and> start_limits_safe ops)"
| "start_limits_safe (_ # ops) = start_limits_safe ops"

fun chunk_accepted :: "node_lib \<Rightarrow> NodeRegistry \<Rightarrow> string \<Rightarrow> op \<Rightarrow> int list" where
  "chunk_accepted lib r i (HandleInvokeResultChunk i' n ix d b) =
     (if i' = i \<and> snd (handleInvokeResultChunk lib r i' n ix d b) = TransferOk
      then [ix] else [])"
| "chunk_accepted lib r i _ = []"

fun accepted_indices :: "node_lib \<Rightarrow> NodeRegistry \<Rightarrow> string \<Rightarrow> op list \<Rightarrow> int list" where
  "accepted_indices lib r i [] = []"
| "accepted_indices lib r i (op # ops) =
     chunk_accepted lib r i op @ accepted_indices lib (apply_op lib r op) i ops"

text \<open>
  The frames for one request id that the registry answered with \<open>{ ok: true }\<close>, in the order
  of the run: a start frame with the node, the sizes and the digest it declared, a chunk with
  its index and its base64 text. \<open>chunk_frames k ds\<close> are chunks that carry the texts \<open>ds\<close> under
  the indices \<open>k\<close>, \<open>k + 1\<close>, ... in this order.
\<close>

datatype frame =
    StartFrame string int int int string
  | ChunkFrame int string

fun frame_accepted :: "node_lib \<Rightarrow> NodeRegistry \<Rightarrow> string \<Rightarrow> op \<Rightarrow> frame list" where
  "frame_accepted lib r i (StartInvokeResultTransfer i' n tb cb cc sh mr mi) =
     (case sh of
        None \<Rightarrow> []
      | Some digest \<Rightarrow>
          if i' = i \<and> snd (startInvokeResultTransfer r i' n tb cb cc sh mr mi) = Inr TransferOk
          then [StartFrame n tb cb cc digest] else [])"
| "frame_accepted lib r i (HandleInvokeResultChunk i' n ix d b) =
     (if i' = i \<and> snd (handleInvokeResultChunk lib r i' n ix d b) = TransferOk
      then [ChunkFrame ix d] else [])"
| "frame_accepted lib r i _ = []"

fun accepted_frames :: "node_lib \<Rightarrow> NodeRegistry \<Rightarrow> string \<Rightarrow> op list \<Rightarrow> frame list" where
  "accepted_frames lib r i [] = []"
| "accepted_frames lib r i (op # ops) =
     frame_accepted lib r i op @ accepted_frames lib (apply_op lib r op) i ops"

fun chunk_frames :: "int \<Rightarrow> string list \<Rightarrow> frame list" where
  "chunk_frames k [] = []"
| "chunk_frames k (d # ds) = ChunkFrame k d # chunk_frames (k + 1) ds"

text \<open>
  What the transfer of a request id has to hold once its start frame and the chunks with the
  texts \<open>ds\<close> have been accepted, stated from the frames alone: the declared values, the
  number of chunks taken, and the decoded bytes of the chunks, in the order of receipt, as the
  chunk list, as the input of the hash and as the byte count.
\<close>

definition transfer_of :: "node_lib \<Rightarrow> string \<Rightarrow> int \<Rightarrow> int \<Rightarrow> int \<Rightarrow> string \<Rightarrow> string list
    \<Rightarrow> PendingInvokeTransfer" where
  "transfer_of lib n tb cb cc digest ds =
     \<lparr>t_nodeId = n, totalBytes = tb, chunkBytes = cb, chunkCount = cc,
      nextIndex = int (length ds),
      bytesReceived = int (length (concat (map (base64_decode lib) ds))),
      sha256 = toLowerCase digest,
      hash = concat (map (base64_decode lib) ds),
      chunks = map (base64_decode lib) ds\<rparr>"

definition indexed_conns :: "NodeRegistry \<Rightarrow> (string \<times> string) list" where
  "indexed_conns r = filter (\<lambda>e. snd e \<in> fst ` set (nodesById r)) (nodesByConn r)"

definition index_inv :: "NodeRegistry \<Rightarrow> bool" where
  "index_inv r \<longleftrightarrow>
     distinct (map fst (nodesById r)) \<and> distinct (map fst (nodesByConn r))
     \<and> (\<forall>n S. map_of (nodesById r) n = Some S \<longrightarrow>
            nodeId S = n \<and> map_of (nodesByConn r) (connId S) = Some n)"

definition index_bij :: "NodeRegistry \<Rightarrow> bool" where
  "index_bij r \<longleftrightarrow>
     (\<forall>c n. map_of (nodesByConn r) c = Some n \<longrightarrow>
        (\<exists>S. map_of (nodesById r) n = Some S \<and> connId S = c))"

text \<open>
  \<open>pending && pending.nodeId === nodeId\<close>: the request id is pending and belongs to the node.
\<close>

definition owns :: "NodeRegistry \<Rightarrow> string \<Rightarrow> string \<Rightarrow> bool" where
  "owns r i n = (case map_of (pendingInvokes r) i of None \<Rightarrow> False | Some p \<Rightarrow> p_nodeId p = n)"

text \<open>
  The checks of \<open>handleInvokeResultChunk\<close> on a chunk for a transfer, in the order of the
  source: the index, the decoded length against \<open>bytes\<close>, the running size against
  \<open>totalBytes\<close>; and the three conditions under which the chunk completes the transfer: with
  it the chunks are \<open>chunkCount\<close>, the bytes are \<open>totalBytes\<close>, and the lowercased SHA-256 of the
  bytes the hash was fed, this chunk's last, is the stored digest.
\<close>

definition chunk_fits :: "node_lib \<Rightarrow> PendingInvokeTransfer \<Rightarrow> int \<Rightarrow> string \<Rightarrow> int \<Rightarrow> bool" where
  "chunk_fits lib t ix d b \<longleftrightarrow>
     ix = nextIndex t \<and> ix < chunkCount t
     \<and> int (length (base64_decode lib d)) = b
     \<and> bytesReceived t + int (length (base64_decode lib d)) \<le> totalBytes t"

definition chunk_completes :: "node_lib \<Rightarrow> PendingInvokeTransfer \<Rightarrow> string \<Rightarrow> bool" where
  "chunk_completes lib t d \<longleftrightarrow>
     nextIndex t + 1 = chunkCount t
     \<and> bytesReceived t + int (length (base64_decode lib d)) = totalBytes t
     \<and> toLowerCase (sha256_hex lib (hash t @ base64_decode lib d)) = sha256 t"

text \<open>
  What \<open>handleInvokeResult\<close> leaves when it resolves the pending invoke \<open>i\<close> with \<open>res\<close>: the
  timer cancelled, the pending entry and the transfer of \<open>i\<close> deleted, the bytes of the
  transfer released, \<open>resolve(res)\<close> called once, the indexes untouched.
\<close>

definition resolved_with :: "NodeRegistry \<Rightarrow> string \<Rightarrow> NodeInvokeResult \<Rightarrow> NodeRegistry \<Rightarrow> bool" where
  "resolved_with r i res r' \<longleftrightarrow>
     pendingInvokes r' = AList.delete i (pendingInvokes r)
     \<and> invokeTransfers r' = AList.delete i (invokeTransfers r)
     \<and> timers r' = timers r - {i}
     \<and> settlements r' = settlements r @ [(i, Resolved res)]
     \<and> inflightBytes r' =
         (case map_of (invokeTransfers r) i of
            None \<Rightarrow> inflightBytes r
          | Some t \<Rightarrow> max 0 (inflightBytes r - totalBytes t))
     \<and> nodesById r' = nodesById r \<and> nodesByConn r' = nodesByConn r"

text \<open>
  For one request id: whether it is pending, and the index its transfer expects next (0 while
  it has no transfer).
\<close>

definition live :: "NodeRegistry \<Rightarrow> string \<Rightarrow> bool" where
  "live r i \<longleftrightarrow> map_of (pendingInvokes r) i \<noteq> None"

definition expected_index :: "NodeRegistry \<Rightarrow> string \<Rightarrow> int" where
  "expected_index r i = (case map_of (invokeTransfers r) i of None \<Rightarrow> 0 | Some t \<Rightarrow> nextIndex t)"

text \<open>
  The invariants of the invocation and transfer tables: the keys of each map are distinct,
  the armed timers are those of the pending invokes, every transfer belongs to a pending
  invoke of the same node, and has been fed exactly the chunks it holds; and the accounting
  of the bytes in flight.
\<close>

definition transfer_inv :: "NodeRegistry \<Rightarrow> bool" where
  "transfer_inv r \<longleftrightarrow>
     distinct (map fst (pendingInvokes r)) \<and> distinct (map fst (invokeTransfers r))
     \<and> timers r = fst ` set (pendingInvokes r)
     \<and> (\<forall>i t. map_of (invokeTransfers r) i = Some t \<longrightarrow>
            (\<exists>p. map_of (pendingInvokes r) i = Some p \<and> p_nodeId p = t_nodeId t)
            \<and> hash t = concat (chunks t)
            \<and> bytesReceived t = int (length (concat (chunks t)))
            \<and> nextIndex t = int (length (chunks t)))"

definition inflight_inv :: "NodeRegistry \<Rightarrow> bool" where
  "inflight_inv r \<longleftrightarrow>
     distinct (map fst (invokeTransfers r))
     \<and> (\<forall>e \<in> set (invokeTransfers r). 0 \<le> totalBytes (snd e))
     \<and> inflightBytes r = sum_list (map (\<lambda>e. totalBytes (snd e)) (invokeTransfers r))"

subsection \<open>Fixtures\<close>

text \<open>
  The client that \<open>buildNodeClient\<close> of src/gateway/node-registry.test.ts builds, and a stand-in
  for the library: any three functions do, the theorems below hold for every \<open>node_lib\<close>.
  They serve to evaluate the model on concrete inputs.
\<close>

definition buildNodeClient :: GatewayWsClient where
  "buildNodeClient =
     \<lparr>connect = \<lparr>device_id = None, client_id = ''node-1'', client_displayName = None,
        client_platform = Some ''node'', client_version = Some ''1.0.0'',
        client_deviceFamily = None, client_modelIdentifier = None,
        connect_coreVersion = None, connect_uiVersion = None, connect_caps = None,
        connect_commands = None, connect_permissions = None, connect_pathEnv = None\<rparr>,
      client_connId = ''conn-1''\<rparr>"

definition stub_lib :: node_lib where
  "stub_lib =
     \<lparr>base64_decode = map (\<lambda>c. if c = CHR ''A'' then 0 else 1),
      sha256_hex = map (\<lambda>b. if b = 0 then CHR ''0'' else CHR ''f''),
      utf8_decode = map (\<lambda>b. if b = 0 then CHR ''{'' else CHR ''}'')\<rparr>"

section \<open>The exec-host client (src/infra/exec-host.ts)\<close>

text \<open>
  \<open>requestExecHostViaSocket\<close> returns a promise that three callbacks settle: the socket's
  \<open>data\<close> handler, its \<open>error\<close> handler and the timer. The model keeps the variables of the
  closure (\<open>settled\<close>, \<open>buffer\<close>, \<open>pendingReceived\<close>, the armed timer), whether the socket has
  been destroyed, and the trace of the calls the callbacks make. A line of the socket is
  whatever \<open>JSON.parse\<close> makes of it: the parser is a parameter, and a JSON value is a
  datatype. The request frame and its HMAC are not part of the model.

  The text that arrives on the socket is a JavaScript string, a sequence of UTF-16 code
  units: \<open>indexOf\<close>, \<open>slice\<close> and \<open>trim\<close> work on them, and \<open>trim\<close> strips every white space and
  line terminator of ECMAScript, not only the ASCII ones.
\<close>

type_synonym code_unit = "16 word"

datatype json =
  JNull
  | JBool bool
  | JNum int
  | JStr string
  | JArr "json list"
  | JObj "(string \<times> json) list"

text \<open>Property access \<open>msg?.name\<close> on a parsed value, and JavaScript truthiness.\<close>

fun field :: "json \<Rightarrow> string \<Rightarrow> json option" where
  "field (JObj kvs) name = map_of kvs name"
| "field _ name = None"

fun truthy :: "json option \<Rightarrow> bool" where
  "truthy None = False"
| "truthy (Some JNull) = False"
| "truthy (Some (JBool b)) = b"
| "truthy (Some (JNum n)) = (n \<noteq> 0)"
| "truthy (Some (JStr s)) = (s \<noteq> [])"
| "truthy (Some (JArr xs)) = True"
| "truthy (Some (JObj kvs)) = True"

datatype ExecHostResponse =
  Response_ok json
  | Response_error json
  | Response_pending json

text \<open>
  The two timers differ by their callback: the base timer asks \<open>pendingReceived\<close>, the
  extended one always reports the approval timeout. Each carries the delay it was set with.
\<close>

datatype timer =
  BaseTimer int
  | ExtendedTimer json

datatype call =
  SetTimeout timer
  | ClearTimeout
  | Destroy
  | Resolve "ExecHostResponse option"
  | OnPending "json option"

record ExecHostClient =
  settled :: bool
  buffer :: "code_unit list"
  pendingReceived :: bool
  timer :: "timer option"
  destroyed :: bool
  calls :: "call list"

definition pendingTimeoutMs :: int where
  "pendingTimeoutMs = 5 * 60 * 1000"

definition approval_timeout :: ExecHostResponse where
  "approval_timeout = Response_pending (JObj [(''reason'', JStr ''approval-timeout'')])"

definition finish :: "ExecHostClient \<Rightarrow> ExecHostResponse option \<Rightarrow> ExecHostClient" where
  "finish s v =
     (if settled s then s
      else s\<lparr>settled := True, timer := None, destroyed := True,
             calls := calls s @ [ClearTimeout, Destroy, Resolve v]\<rparr>)"

text \<open>
  The state when the promise executor has run: \<open>baseTimeoutMs = params.timeoutMs ?? 20_000\<close>,
  the base timer armed. The function returns \<open>null\<close> before that when the socket path or the
  token is empty.
\<close>

definition requestExecHostViaSocket :: "string \<Rightarrow> string \<Rightarrow> int option \<Rightarrow> ExecHostClient option" where
  "requestExecHostViaSocket socketPath token timeoutMs =
     (if socketPath = [] \<or> token = [] then None
      else
        let baseTimeoutMs = (case timeoutMs of Some ms \<Rightarrow> ms | None \<Rightarrow> 20000)
        in Some \<lparr>settled = False, buffer = [], pendingReceived = False,
                  timer = Some (BaseTimer baseTimeoutMs), destroyed = False,
                  calls = [SetTimeout (BaseTimer baseTimeoutMs)]\<rparr>)"

text \<open>The callback of whichever timer is armed; a timer that is not armed cannot fire.\<close>

definition timer_fired :: "ExecHostClient \<Rightarrow> ExecHostClient" where
  "timer_fired s =
     (case timer s of
        None \<Rightarrow> s
      | Some (BaseTimer ms) \<Rightarrow>
          if pendingReceived s then finish (s\<lparr>timer := None\<rparr>) (Some approval_timeout)
          else finish (s\<lparr>timer := None\<rparr>) None
      | Some (ExtendedTimer ms) \<Rightarrow> finish (s\<lparr>timer := None\<rparr>) (Some approval_timeout))"

definition socket_error :: "ExecHostClient \<Rightarrow> ExecHostClient" where
  "socket_error s = finish s None"

text \<open>\<open>pendingPayload?.timeoutMs ?? pendingTimeoutMs\<close>\<close>

definition extendedTimeout :: "json option \<Rightarrow> json" where
  "extendedTimeout pendingPayload =
     (case pendingPayload of
        None \<Rightarrow> JNum pendingTimeoutMs
      | Some p \<Rightarrow>
          (case field p ''timeoutMs'' of
             None \<Rightarrow> JNum pendingTimeoutMs
           | Some JNull \<Rightarrow> JNum pendingTimeoutMs
           | Some ms \<Rightarrow> ms))"

text \<open>
  The body of the \<open>try\<close> block for one parsed line. The second component tells whether the
  handler returns (after \<open>exec-res\<close>) or goes on with the next line. \<open>onPending\<close> tells whether
  the caller passed the callback.
\<close>

definition on_message :: "bool \<Rightarrow> ExecHostClient \<Rightarrow> json \<Rightarrow> ExecHostClient \<times> bool" where
  "on_message onPending s msg =
     (if field msg ''type'' = Some (JStr ''exec-pending'')
      then
        let pendingPayload = field msg ''payload'';
            t = ExtendedTimer (extendedTimeout pendingPayload)
        in (s\<lparr>pendingReceived := True, timer := Some t,
              calls := calls s @ [ClearTimeout, SetTimeout t]
                @ (if onPending then [OnPending pendingPayload] else [])\<rparr>,
            False)
      else if field msg ''type'' = Some (JStr ''exec-res'')
      then
        let s1 = s\<lparr>timer := None, calls := calls s @ [ClearTimeout]\<rparr>
        in if field msg ''ok'' = Some (JBool True) \<and> truthy (field msg ''payload'')
           then (finish s1 (Some (Response_ok (the (field msg ''payload'')))), True)
           else if field msg ''ok'' = Some (JBool False) \<and> truthy (field msg ''error'')
           then (finish s1 (Some (Response_error (the (field msg ''error'')))), True)
           else (finish s1 None, True)
      else (s, False))"

text \<open>
  The \<open>data\<close> handler: the text is appended to the buffer, and the buffer is taken apart
  line by line. A line is trimmed; an empty one and one that does not parse are skipped.
\<close>

fun split_line :: "code_unit list \<Rightarrow> (code_unit list \<times> code_unit list) option" where
  "split_line [] = None"
| "split_line (c # cs) =
     (if c = 0x0A then Some ([], cs)
      else (case split_line cs of None \<Rightarrow> None | Some (l, rest) \<Rightarrow> Some (c # l, rest)))"

text \<open>
  \<open>String.prototype.trim\<close> strips the code units of \<open>WhiteSpace\<close> (tab, vertical tab, form feed,
  U+FEFF and the space separators U+0020, U+00A0, U+1680, U+2000 to U+200A, U+202F, U+205F,
  U+3000) and of \<open>LineTerminator\<close> (line feed, carriage return, U+2028, U+2029) from both
  ends.
\<close>

definition is_space :: "code_unit \<Rightarrow> bool" where
  "is_space c \<longleftrightarrow>
     c \<in> set [0x09, 0x0A, 0x0B, 0x0C, 0x0D, 0x20, 0xA0, 0x1680,
              0x2000, 0x2001, 0x2002, 0x2003, 0x2004, 0x2005, 0x2006, 0x2007, 0x2008, 0x2009,
              0x200A, 0x2028, 0x2029, 0x202F, 0x205F, 0x3000, 0xFEFF]"

definition trim :: "code_unit list \<Rightarrow> code_unit list" where
  "trim s = rev (dropWhile is_space (rev (dropWhile is_space s)))"

function on_lines :: "(code_unit list \<Rightarrow> json option) \<Rightarrow> bool \<Rightarrow> ExecHostClient
    \<Rightarrow> ExecHostClient" where
  "on_lines parse onPending s =
     (case split_line (buffer s) of
        None \<Rightarrow> s
      | Some (l, rest) \<Rightarrow>
          if trim l = [] then on_lines parse onPending (s\<lparr>buffer := rest\<rparr>)
          else
            (case parse (trim l) of
               None \<Rightarrow> on_lines parse onPending (s\<lparr>buffer := rest\<rparr>)
             | Some msg \<Rightarrow>
                 (case on_message onPending (s\<lparr>buffer := rest\<rparr>) msg of
                    (s2, True) \<Rightarrow> s2
                  | (s2, False) \<Rightarrow> on_lines parse onPending s2)))"
  by pat_completeness auto
termination
proof -
  have shorter: "length rest < length cs" if "split_line cs = Some (l, rest)" for cs l rest
    using that
    by (induction cs arbitrary: l) (auto split: if_splits option.splits)
  have kept: "buffer s2 = buffer s" if "(s2, False) = on_message onPending s msg"
    for onPending s msg s2
    using that by (auto simp add: on_message_def Let_def split: if_splits)
  show ?thesis
  proof (relation "measure (\<lambda>(parse, onPending, s). length (buffer s))", goal_cases)
    case 1
    show ?case by simp
  next
    case (2 parse onPending s x2 l rest)
    then show ?case
      using shorter [of "buffer s" l rest] by simp
  next
    case (3 parse onPending s x2 l rest)
    then show ?case
      using shorter [of "buffer s" l rest] by simp
  next
    case (4 parse onPending s x2 l rest msg s2 ret)
    then show ?case
      using shorter [of "buffer s" l rest] kept [of s2 onPending "s\<lparr>buffer := rest\<rparr>" msg]
      by simp
  qed
qed

declare on_lines.simps [simp del]

text \<open>
  A destroyed socket emits no \<open>data\<close>. The argument is \<open>data.toString("utf8")\<close>, the text of
  the event.
\<close>

definition on_data :: "(code_unit list \<Rightarrow> json option) \<Rightarrow> bool \<Rightarrow> ExecHostClient
    \<Rightarrow> code_unit list \<Rightarrow> ExecHostClient" where
  "on_data parse onPending s data =
     (if destroyed s then s else on_lines parse onPending (s\<lparr>buffer := buffer s @ data\<rparr>))"

datatype exec_event =
  Data "code_unit list"
  | TimerFires
  | SocketError

fun exec_step :: "(code_unit list \<Rightarrow> json option) \<Rightarrow> bool \<Rightarrow> ExecHostClient \<Rightarrow> exec_event
    \<Rightarrow> ExecHostClient" where
  "exec_step parse onPending s (Data d) = on_data parse onPending s d"
| "exec_step parse onPending s TimerFires = timer_fired s"
| "exec_step parse onPending s SocketError = socket_error s"

definition exec_run :: "(code_unit list \<Rightarrow> json option) \<Rightarrow> bool \<Rightarrow> ExecHostClient
    \<Rightarrow> exec_event list \<Rightarrow> ExecHostClient" where
  "exec_run parse onPending s evs = foldl (exec_step parse onPending) s evs"

text \<open>
  The code units of an ASCII text, and a stand-in for \<open>JSON.parse\<close> on three lines: an
  \<open>exec-pending\<close> frame that asks for 400 ms, a well-formed \<open>exec-res\<close>, and an \<open>exec-res\<close> whose
  \<open>ok\<close> is \<open>true\<close> without a payload.
\<close>

definition ascii :: "string \<Rightarrow> code_unit list" where
  "ascii s = map of_char s"

definition stub_parse :: "code_unit list \<Rightarrow> json option" where
  "stub_parse line =
     (if line = ascii ''pending''
      then Some (JObj [(''type'', JStr ''exec-pending''),
                       (''payload'', JObj [(''reason'', JStr ''awaiting-approval''),
                                           (''timeoutMs'', JNum 400)])])
      else if line = ascii ''res''
      then Some (JObj [(''type'', JStr ''exec-res''), (''ok'', JBool True),
                       (''payload'', JObj [(''success'', JBool True)])])
      else if line = ascii ''bad''
      then Some (JObj [(''type'', JStr ''exec-res''), (''ok'', JBool True)])
      else None)"

definition exec_inv :: "ExecHostClient \<Rightarrow> bool" where
  "exec_inv s \<longleftrightarrow>
     settled s = destroyed s
     \<and> (settled s \<longrightarrow> timer s = None)
     \<and> length (filter (\<lambda>c. case c of Resolve v \<Rightarrow> True | _ \<Rightarrow> False) (calls s))
         = (if settled s then 1 else 0)"

section \<open>Properties of the registry\<close>

subsection \<open>Effect of the shared helpers\<close>

lemma clearInvokeTransfer_absent:
  "map_of (invokeTransfers r) i = None \<Longrightarrow> clearInvokeTransfer r i = r"
  by (simp add: clearInvokeTransfer_def)

lemma handleInvokeResult_match:
  "map_of (pendingInvokes r) i = Some p \<Longrightarrow> p_nodeId p = n \<Longrightarrow>
   handleInvokeResult r i n ok' pl pj e =
     ((clearInvokeTransfer
         (r\<lparr>timers := timers r - {i}, pendingInvokes := AList.delete i (pendingInvokes r)\<rparr>) i)
        \<lparr>settlements := settlements r
           @ [(i, Resolved \<lparr>ok = ok', payload = pl, payloadJSON = pj, error = e\<rparr>)]\<rparr>,
      True)"
  by (simp add: handleInvokeResult_def clearInvokeTransfer_def Let_def split: option.splits)

lemma handleInvokeResult_nomatch:
  "(case map_of (pendingInvokes r) i of None \<Rightarrow> True | Some p \<Rightarrow> p_nodeId p \<noteq> n) \<Longrightarrow>
   handleInvokeResult r i n ok' pl pj e = (r, False)"
  by (simp add: handleInvokeResult_def split: option.splits)

subsection \<open>Oversized payloads\<close>

text \<open>
  C7. A start frame for a pending invoke of the same node, with no transfer yet for the id,
  whose \<open>totalBytes\<close> exceeds \<open>maxInvokeResultBytes\<close> or would lift \<open>inflightBytes\<close> above
  \<open>maxInflightBytes\<close>, is answered with the failure \<open>payload-too-large\<close>; the pending invoke
  is resolved with \<open>INVALID_REQUEST\<close> and the message "payload too large" (its entry removed,
  its timer cancelled), no transfer is created and \<open>inflightBytes\<close> keeps its value.
\<close>

theorem start_payload_too_large:
  assumes "map_of (pendingInvokes r) i = Some p" and "p_nodeId p = n"
    and "map_of (invokeTransfers r) i = None"
    and "tb > mr \<or> inflightBytes r + tb > mi"
  shows "snd (startInvokeResultTransfer r i n tb cb cc sh mr mi)
           = Inr (TransferFailed payload_too_large ''payload too large'')
       \<and> settlements (fst (startInvokeResultTransfer r i n tb cb cc sh mr mi))
           = settlements r @ [(i, Resolved (invoke_error ''INVALID_REQUEST'' ''payload too large''))]
       \<and> invokeTransfers (fst (startInvokeResultTransfer r i n tb cb cc sh mr mi))
           = invokeTransfers r
       \<and> inflightBytes (fst (startInvokeResultTransfer r i n tb cb cc sh mr mi))
           = inflightBytes r
       \<and> map_of (pendingInvokes (fst (startInvokeResultTransfer r i n tb cb cc sh mr mi))) i
           = None
       \<and> i \<notin> timers (fst (startInvokeResultTransfer r i n tb cb cc sh mr mi))"
  using assms
  by (auto simp add: startInvokeResultTransfer_def resolveInvokeError_def
      handleInvokeResult_match clearInvokeTransfer_absent invalid_request_def invoke_error_def
      AList.delete_conv')

theorem start_payload_too_large_witness:
  "snd (startInvokeResultTransfer
          (new_NodeRegistry\<lparr>pendingInvokes :=
              [(''req-1'', \<lparr>p_nodeId = ''node-1'', command = ''system.run''\<rparr>)],
            timers := {''req-1''}\<rparr>)
          ''req-1'' ''node-1'' 2048 4 512 (Some ''ab'') 1024 4096)
     = Inr (TransferFailed payload_too_large ''payload too large'')
   \<and> settlements (fst (startInvokeResultTransfer
          (new_NodeRegistry\<lparr>pendingInvokes :=
              [(''req-1'', \<lparr>p_nodeId = ''node-1'', command = ''system.run''\<rparr>)],
            timers := {''req-1''}\<rparr>)
          ''req-1'' ''node-1'' 2048 4 512 (Some ''ab'') 1024 4096))
     = [(''req-1'', Resolved (invoke_error ''INVALID_REQUEST'' ''payload too large''))]"
  using start_payload_too_large
    [where r = "new_NodeRegistry\<lparr>pendingInvokes :=
              [(''req-1'', \<lparr>p_nodeId = ''node-1'', command = ''system.run''\<rparr>)],
            timers := {''req-1''}\<rparr>"
       and i = "''req-1''" and p = "\<lparr>p_nodeId = ''node-1'', command = ''system.run''\<rparr>"
       and n = "''node-1''" and tb = 2048 and mr = 1024 and mi = 4096 and cb = 4 and cc = 512
       and sh = "Some ''ab''"]
  by (simp add: new_NodeRegistry_def)

lemma map_of_filter_key:
  "map_of (filter (\<lambda>e. Q (fst e)) xs) k = (if Q k then map_of xs k else None)"
  by (induction xs) auto

lemma unregister_pending_apply:
  "unregister_pending N e r =
     (if p_nodeId (snd e) \<noteq> N then r
      else r\<lparr>timers := timers r - {fst e},
             settlements := settlements r @ [(fst e, Rejected (node_disconnected (command (snd e))))],
             pendingInvokes := AList.delete (fst e) (pendingInvokes r)\<rparr>)"
  by (simp add: unregister_pending_def)

lemma unregister_transfer_apply:
  "unregister_transfer N e r =
     (if t_nodeId (snd e) \<noteq> N then r else clearInvokeTransfer r (fst e))"
  by (simp add: unregister_transfer_def)

lemma clearInvokeTransfer_apply:
  "clearInvokeTransfer r i =
     (case map_of (invokeTransfers r) i of
        None \<Rightarrow> r
      | Some transfer \<Rightarrow>
          r\<lparr>invokeTransfers := AList.delete i (invokeTransfers r),
            inflightBytes := max 0 (inflightBytes r - totalBytes transfer)\<rparr>)"
  by (simp add: clearInvokeTransfer_def)

subsection \<open>The two loops of unregister\<close>

text \<open>
  What the first loop leaves in each field, by induction on the entries it visits; the
  registry is generalised because every visit changes it.
\<close>

lemma fold_unregister_pending_settled:
  "settlements (fold (unregister_pending N) ps r) =
     settlements r @ map (\<lambda>e. (fst e, Rejected (node_disconnected (command (snd e)))))
                   (filter (\<lambda>e. p_nodeId (snd e) = N) ps)"
  by (induction ps arbitrary: r) (simp_all add: unregister_pending_apply)

lemma fold_unregister_pending_timers:
  "timers (fold (unregister_pending N) ps r) =
     timers r - fst ` {e \<in> set ps. p_nodeId (snd e) = N}"
  by (induction ps arbitrary: r) (auto simp add: unregister_pending_apply)

lemma fold_unregister_pending_pendingInvokes:
  "pendingInvokes (fold (unregister_pending N) ps r) =
     filter (\<lambda>e. fst e \<notin> fst ` {e \<in> set ps. p_nodeId (snd e) = N}) (pendingInvokes r)"
proof (induction ps arbitrary: r)
  case Nil
  then show ?case by simp
next
  case (Cons e ps)
  have "pendingInvokes (fold (unregister_pending N) (e # ps) r) =
      filter (\<lambda>x. fst x \<notin> fst ` {x \<in> set ps. p_nodeId (snd x) = N})
        (pendingInvokes (unregister_pending N e r))"
    using Cons.IH [of "unregister_pending N e r"] by simp
  also have "\<dots> =
      filter (\<lambda>x. fst x \<notin> fst ` {x \<in> set (e # ps). p_nodeId (snd x) = N}) (pendingInvokes r)"
    by (auto simp add: unregister_pending_apply AList.delete_eq intro!: filter_cong)
  finally show ?case .
qed

lemma fold_unregister_pending_frame:
  "nodesById (fold (unregister_pending N) ps r) = nodesById r"
  "nodesByConn (fold (unregister_pending N) ps r) = nodesByConn r"
  "invokeTransfers (fold (unregister_pending N) ps r) = invokeTransfers r"
  "inflightBytes (fold (unregister_pending N) ps r) = inflightBytes r"
  by (induction ps arbitrary: r) (simp_all add: unregister_pending_apply)

lemma fold_unregister_transfer_frame:
  "nodesById (fold (unregister_transfer N) ts r) = nodesById r"
  "nodesByConn (fold (unregister_transfer N) ts r) = nodesByConn r"
  "pendingInvokes (fold (unregister_transfer N) ts r) = pendingInvokes r"
  "timers (fold (unregister_transfer N) ts r) = timers r"
  "settlements (fold (unregister_transfer N) ts r) = settlements r"
  by (induction ts arbitrary: r)
    (simp_all add: unregister_transfer_apply clearInvokeTransfer_apply split: option.splits)

lemma fold_unregister_transfer_invokeTransfers:
  "invokeTransfers (fold (unregister_transfer N) ts r) =
     filter (\<lambda>e. fst e \<notin> fst ` {e \<in> set ts. t_nodeId (snd e) = N}) (invokeTransfers r)"
proof (induction ts arbitrary: r)
  case Nil
  then show ?case by simp
next
  case (Cons e ts)
  have absent: "map_of (invokeTransfers r) (fst e) = None \<Longrightarrow>
      filter (\<lambda>x. fst x \<noteq> fst e \<and> Q x) (invokeTransfers r) = filter Q (invokeTransfers r)" for Q
  proof -
    assume "map_of (invokeTransfers r) (fst e) = None"
    then have "\<forall>x \<in> set (invokeTransfers r). fst x \<noteq> fst e"
      by (metis image_eqI map_of_eq_None_iff)
    then show ?thesis
      by (auto intro!: filter_cong)
  qed
  have "invokeTransfers (fold (unregister_transfer N) (e # ts) r) =
      filter (\<lambda>x. fst x \<notin> fst ` {x \<in> set ts. t_nodeId (snd x) = N})
        (invokeTransfers (unregister_transfer N e r))"
    using Cons.IH [of "unregister_transfer N e r"] by simp
  also have "\<dots> =
      filter (\<lambda>x. fst x \<notin> fst ` {x \<in> set (e # ts). t_nodeId (snd x) = N}) (invokeTransfers r)"
    by (auto simp add: unregister_transfer_apply clearInvokeTransfer_apply AList.delete_eq
        absent split: option.splits intro!: filter_cong dest: weak_map_of_SomeI)
  finally show ?case .
qed

lemma unregister_absent:
  "map_of (nodesByConn r) c = None \<or> map_of (nodesByConn r) c = Some [] \<Longrightarrow>
   unregister r c = (r, None)"
  by (auto simp add: unregister_def)

lemma unregister_present:
  assumes "map_of (nodesByConn r) c = Some N" and "N \<noteq> []"
  shows "snd (unregister r c) = Some N"
    and "nodesByConn (fst (unregister r c)) = AList.delete c (nodesByConn r)"
    and "nodesById (fst (unregister r c)) = AList.delete N (nodesById r)"
    and "pendingInvokes (fst (unregister r c)) =
      filter (\<lambda>e. fst e \<notin> fst ` {e \<in> set (pendingInvokes r). p_nodeId (snd e) = N})
        (pendingInvokes r)"
    and "timers (fst (unregister r c)) =
      timers r - fst ` {e \<in> set (pendingInvokes r). p_nodeId (snd e) = N}"
    and "settlements (fst (unregister r c)) =
      settlements r @ map (\<lambda>e. (fst e, Rejected (node_disconnected (command (snd e)))))
                    (filter (\<lambda>e. p_nodeId (snd e) = N) (pendingInvokes r))"
    and "invokeTransfers (fst (unregister r c)) =
      filter (\<lambda>e. fst e \<notin> fst ` {e \<in> set (invokeTransfers r). t_nodeId (snd e) = N})
        (invokeTransfers r)"
  using assms
  by (simp_all add: unregister_def Let_def fold_unregister_pending_settled
      fold_unregister_pending_timers fold_unregister_pending_pendingInvokes
      fold_unregister_pending_frame fold_unregister_transfer_frame
      fold_unregister_transfer_invokeTransfers)

subsection \<open>Node loss while an invoke is pending\<close>

text \<open>
  C2, as the code has it. When \<open>unregister(connId)\<close> removes a session with node id \<open>N\<close>
  (\<open>connId\<close> is indexed and \<open>N\<close> is not the empty string), every pending invoke of \<open>N\<close> has its
  timer cancelled and its entry removed, and its caller is settlements by \<open>reject\<close> with the
  \<open>Error\<close> "node disconnected (<command>)", in the order of the pending map: the promise
  \<open>invoke\<close> awaits is rejected, and no \<open>NOT_CONNECTED\<close> result value is delivered.
\<close>

theorem unregister_rejects_pending:
  assumes "map_of (nodesByConn r) c = Some N" and "N \<noteq> []"
  shows "snd (unregister r c) = Some N
       \<and> settlements (fst (unregister r c)) =
           settlements r @ map (\<lambda>e. (fst e, Rejected (node_disconnected (command (snd e)))))
                         (filter (\<lambda>e. p_nodeId (snd e) = N) (pendingInvokes r))
       \<and> timers (fst (unregister r c)) =
           timers r - fst ` {e \<in> set (pendingInvokes r). p_nodeId (snd e) = N}
       \<and> (\<forall>e \<in> set (pendingInvokes r). p_nodeId (snd e) = N \<longrightarrow>
             map_of (pendingInvokes (fst (unregister r c))) (fst e) = None)"
proof -
  have "map_of (pendingInvokes (fst (unregister r c))) (fst e) = None"
    if "e \<in> set (pendingInvokes r)" and "p_nodeId (snd e) = N" for e
    using that by (force simp add: unregister_present [OF assms] map_of_eq_None_iff)
  then show ?thesis
    by (simp add: unregister_present [OF assms])
qed

theorem unregister_rejects_pending_witness:
  "snd (unregister
      (fst (invoke (fst (register new_NodeRegistry buildNodeClient (Some ''127.0.0.1'') 0))
              ''node-1'' ''system.run'' ''req-1'' True))
      ''conn-1'') = Some ''node-1''
   \<and> settlements (fst (unregister
      (fst (invoke (fst (register new_NodeRegistry buildNodeClient (Some ''127.0.0.1'') 0))
              ''node-1'' ''system.run'' ''req-1'' True))
      ''conn-1''))
    = [(''req-1'', Rejected (node_disconnected ''system.run''))]"
proof -
  let ?r = "fst (invoke (fst (register new_NodeRegistry buildNodeClient (Some ''127.0.0.1'') 0))
              ''node-1'' ''system.run'' ''req-1'' True)"
  have conn: "map_of (nodesByConn ?r) ''conn-1'' = Some ''node-1''"
    by (simp add: new_NodeRegistry_def buildNodeClient_def register_def invoke_def
        client_nodeId_def Let_def)
  have pend: "pendingInvokes ?r = [(''req-1'', \<lparr>p_nodeId = ''node-1'', command = ''system.run''\<rparr>)]"
    and sett: "settlements ?r = []"
    by (simp_all add: new_NodeRegistry_def buildNodeClient_def register_def invoke_def
        client_nodeId_def Let_def)
  have ne: "''node-1'' \<noteq> []" by simp
  from unregister_rejects_pending [OF conn ne] show ?thesis
    by (simp add: pend sett)
qed

text \<open>
  The seed scenario "node disconnect mid-invoke": register, invoke, unregister. The caller
  of the invoke is rejected with an \<open>Error\<close>; it is not resolved with a result value.
\<close>

theorem unregister_rejects_counterexample:
  "settlements (run stub_lib
      [Register buildNodeClient (Some ''127.0.0.1'') 0,
       Invoke ''node-1'' ''system.run'' ''req-1'' True,
       Unregister ''conn-1''])
    = [(''req-1'', Rejected ''node disconnected (system.run)'')]"
  by (simp add: run_def new_NodeRegistry_def buildNodeClient_def register_def invoke_def
      client_nodeId_def Let_def unregister_def unregister_pending_def node_disconnected_def)


subsection \<open>The two indexes\<close>

lemma register_fields:
  "nodesById (fst (register r cl ip now)) =
     AList.update (client_nodeId cl) (snd (register r cl ip now)) (nodesById r)"
  "nodesByConn (fst (register r cl ip now)) =
     AList.update (client_connId cl) (client_nodeId cl) (nodesByConn r)"
  "pendingInvokes (fst (register r cl ip now)) = pendingInvokes r"
  "invokeTransfers (fst (register r cl ip now)) = invokeTransfers r"
  "inflightBytes (fst (register r cl ip now)) = inflightBytes r"
  "timers (fst (register r cl ip now)) = timers r"
  "settlements (fst (register r cl ip now)) = settlements r"
  "nodeId (snd (register r cl ip now)) = client_nodeId cl"
  "connId (snd (register r cl ip now)) = client_connId cl"
  "client (snd (register r cl ip now)) = cl"
  by (simp_all add: register_def Let_def)

lemmas run_eval = run_def new_NodeRegistry_def buildNodeClient_def register_def invoke_def
  client_nodeId_def Let_def

text \<open>
  C1, as the code has it. \<open>register\<close> never calls \<open>unregister\<close>. When a session with the derived
  node id is already registered under another connection id (and indexed under it), the call
  stores the new session under the node id and indexes the new connection id; the old
  connection id stays in the connection index, still mapped to the node id, and no pending
  invoke or transfer is touched: no timer is cancelled, nothing is resolved or rejected, and
  \<open>inflightBytes\<close> keeps its value.
\<close>

theorem register_leaves_prior_session:
  assumes "map_of (nodesById r) (client_nodeId cl) = Some old"
    and "connId old \<noteq> client_connId cl"
    and "map_of (nodesByConn r) (connId old) = Some (client_nodeId cl)"
  shows "map_of (nodesById (fst (register r cl ip now))) (client_nodeId cl)
           = Some (snd (register r cl ip now))
       \<and> connId (snd (register r cl ip now)) = client_connId cl
       \<and> map_of (nodesByConn (fst (register r cl ip now))) (client_connId cl)
           = Some (client_nodeId cl)
       \<and> map_of (nodesByConn (fst (register r cl ip now))) (connId old)
           = Some (client_nodeId cl)
       \<and> pendingInvokes (fst (register r cl ip now)) = pendingInvokes r
       \<and> invokeTransfers (fst (register r cl ip now)) = invokeTransfers r
       \<and> inflightBytes (fst (register r cl ip now)) = inflightBytes r
       \<and> timers (fst (register r cl ip now)) = timers r
       \<and> settlements (fst (register r cl ip now)) = settlements r"
  using assms by (simp add: register_fields AList.update_conv')


theorem register_leaves_prior_session_witness:
  "map_of (nodesByConn (fst (register
       (run stub_lib [Register buildNodeClient (Some ''127.0.0.1'') 0,
                      Invoke ''node-1'' ''system.run'' ''req-1'' True])
       (buildNodeClient\<lparr>client_connId := ''conn-2''\<rparr>) None 5))) ''conn-1'' = Some ''node-1''
   \<and> settlements (fst (register
       (run stub_lib [Register buildNodeClient (Some ''127.0.0.1'') 0,
                      Invoke ''node-1'' ''system.run'' ''req-1'' True])
       (buildNodeClient\<lparr>client_connId := ''conn-2''\<rparr>) None 5)) = []"
proof -
  let ?r = "run stub_lib [Register buildNodeClient (Some ''127.0.0.1'') 0,
                      Invoke ''node-1'' ''system.run'' ''req-1'' True]"
  let ?cl = "buildNodeClient\<lparr>client_connId := ''conn-2''\<rparr>"
  let ?old = "snd (register new_NodeRegistry buildNodeClient (Some ''127.0.0.1'') 0)"
  have nid: "client_nodeId ?cl = ''node-1''"
    by (simp add: client_nodeId_def buildNodeClient_def)
  have a: "map_of (nodesById ?r) (client_nodeId ?cl) = Some ?old"
    by (simp add: run_eval)
  have b: "connId ?old \<noteq> client_connId ?cl"
    by (simp add: run_eval)
  have c: "map_of (nodesByConn ?r) (connId ?old) = Some (client_nodeId ?cl)"
    by (simp add: run_eval)
  have d: "settlements ?r = []" "connId ?old = ''conn-1''"
    by (simp_all add: run_eval)
  from register_leaves_prior_session [OF a b c, of None 5] show ?thesis
    by (simp add: nid d)
qed

text \<open>
  Register on \<open>conn-1\<close>, invoke, register the same node on \<open>conn-2\<close>: \<open>conn-1\<close> is still indexed
  and the invoke that predates the second \<open>register\<close> is still pending and unsettled.
\<close>

theorem register_replace_counterexample:
  "map_of (nodesByConn (run stub_lib
      [Register buildNodeClient (Some ''127.0.0.1'') 0,
       Invoke ''node-1'' ''system.run'' ''req-1'' True,
       Register (buildNodeClient\<lparr>client_connId := ''conn-2''\<rparr>) (Some ''127.0.0.1'') 5]))
     ''conn-1'' = Some ''node-1''
   \<and> map_of (pendingInvokes (run stub_lib
      [Register buildNodeClient (Some ''127.0.0.1'') 0,
       Invoke ''node-1'' ''system.run'' ''req-1'' True,
       Register (buildNodeClient\<lparr>client_connId := ''conn-2''\<rparr>) (Some ''127.0.0.1'') 5]))
     ''req-1'' = Some \<lparr>p_nodeId = ''node-1'', command = ''system.run''\<rparr>
   \<and> settlements (run stub_lib
      [Register buildNodeClient (Some ''127.0.0.1'') 0,
       Invoke ''node-1'' ''system.run'' ''req-1'' True,
       Register (buildNodeClient\<lparr>client_connId := ''conn-2''\<rparr>) (Some ''127.0.0.1'') 5])
     = []"
  by (simp add: run_eval)


text \<open>
  No method but \<open>register\<close> and \<open>unregister\<close> writes the two indexes.
\<close>

lemma clearInvokeTransfer_index:
  "nodesById (clearInvokeTransfer r i) = nodesById r"
  "nodesByConn (clearInvokeTransfer r i) = nodesByConn r"
  by (simp_all add: clearInvokeTransfer_def split: option.splits)

lemma handleInvokeResult_index:
  "nodesById (fst (handleInvokeResult r i n ok' pl pj e)) = nodesById r"
  "nodesByConn (fst (handleInvokeResult r i n ok' pl pj e)) = nodesByConn r"
  by (simp_all add: handleInvokeResult_def Let_def clearInvokeTransfer_index split: option.splits)

lemma resolveInvokeError_index:
  "nodesById (resolveInvokeError r i n e) = nodesById r"
  "nodesByConn (resolveInvokeError r i n e) = nodesByConn r"
  by (simp_all add: resolveInvokeError_def handleInvokeResult_index)

lemma invoke_index:
  "nodesById (fst (invoke r n cmd i sent)) = nodesById r"
  "nodesByConn (fst (invoke r n cmd i sent)) = nodesByConn r"
  by (simp_all add: invoke_def split: option.splits)

lemma invoke_timeout_index:
  "nodesById (invoke_timeout r i) = nodesById r"
  "nodesByConn (invoke_timeout r i) = nodesByConn r"
  by (simp_all add: invoke_timeout_def Let_def clearInvokeTransfer_index)

lemma startInvokeResultTransfer_index:
  "nodesById (fst (startInvokeResultTransfer r i n tb cb cc sh mr mi)) = nodesById r"
  "nodesByConn (fst (startInvokeResultTransfer r i n tb cb cc sh mr mi)) = nodesByConn r"
  by (simp_all add: startInvokeResultTransfer_def resolveInvokeError_index split: option.splits)

lemma handleInvokeResultChunk_index:
  "nodesById (fst (handleInvokeResultChunk lib r i n ix d b)) = nodesById r"
  "nodesByConn (fst (handleInvokeResultChunk lib r i n ix d b)) = nodesByConn r"
  by (simp_all add: handleInvokeResultChunk_def Let_def resolveInvokeError_index
      handleInvokeResult_index split: option.splits)

lemma abortInvokeResultTransfer_index:
  "nodesById (fst (abortInvokeResultTransfer r i n e)) = nodesById r"
  "nodesByConn (fst (abortInvokeResultTransfer r i n e)) = nodesByConn r"
  by (simp_all add: abortInvokeResultTransfer_def clearInvokeTransfer_index
      handleInvokeResult_index split: option.splits)

lemmas index_frame = clearInvokeTransfer_index handleInvokeResult_index invoke_index
  invoke_timeout_index startInvokeResultTransfer_index handleInvokeResultChunk_index
  abortInvokeResultTransfer_index

text \<open>
  The invariant of the indexes, and the stronger one that holds while no \<open>register\<close> replaces
  a registered node id. Each is kept by every operation; a run keeps them by induction on
  the operations, with the registry generalised, as long as the connection ids still to
  come are not yet indexed.
\<close>

lemma index_inv_new: "index_inv new_NodeRegistry" "index_bij new_NodeRegistry"
  by (simp_all add: index_inv_def index_bij_def new_NodeRegistry_def)

lemma index_invD:
  assumes "index_inv r"
  shows "distinct (map fst (nodesById r))" and "distinct (map fst (nodesByConn r))"
    and "map_of (nodesById r) n = Some S \<Longrightarrow> nodeId S = n"
    and "map_of (nodesById r) n = Some S \<Longrightarrow> map_of (nodesByConn r) (connId S) = Some n"
  using assms unfolding index_inv_def by blast+

lemma index_inv_register:
  assumes "index_inv r" and "client_connId cl \<notin> fst ` set (nodesByConn r)"
  shows "index_inv (fst (register r cl ip now))"
proof -
  let ?r' = "fst (register r cl ip now)"
  have fresh: "map_of (nodesByConn r) (client_connId cl) = None"
    using assms(2) by (simp add: map_of_eq_None_iff)
  have other: "connId S \<noteq> client_connId cl"
    if "map_of (nodesById r) n = Some S" for n S
    using index_invD(4) [OF assms(1) that] fresh by auto
  have "nodeId S = n \<and> map_of (nodesByConn ?r') (connId S) = Some n"
    if "map_of (nodesById ?r') n = Some S" for n S
  proof (cases "n = client_nodeId cl")
    case True
    then have "S = snd (register r cl ip now)"
      using that by (simp add: register_fields AList.update_conv')
    then show ?thesis
      using True by (simp add: register_fields AList.update_conv')
  next
    case False
    then have old: "map_of (nodesById r) n = Some S"
      using that by (simp add: register_fields AList.update_conv')
    show ?thesis
      using index_invD(3,4) [OF assms(1) old] other [OF old]
      by (simp add: register_fields AList.update_conv')
  qed
  then show ?thesis
    unfolding index_inv_def
    using index_invD(1,2) [OF assms(1)]
    by (simp add: register_fields AList.distinct_update)
qed

lemma index_inv_unregister:
  assumes "index_inv r"
  shows "index_inv (fst (unregister r c))"
proof (cases "map_of (nodesByConn r) c = None \<or> map_of (nodesByConn r) c = Some []")
  case True
  then show ?thesis
    using assms by (simp add: unregister_absent)
next
  case False
  then obtain N where N: "map_of (nodesByConn r) c = Some N" "N \<noteq> []"
    by auto
  let ?r' = "fst (unregister r c)"
  have "nodeId S = n \<and> map_of (nodesByConn ?r') (connId S) = Some n"
    if "map_of (nodesById ?r') n = Some S" for n S
  proof -
    have "n \<noteq> N" and old: "map_of (nodesById r) n = Some S"
      using that by (auto simp add: unregister_present [OF N] AList.delete_conv' split: if_splits)
    have "connId S \<noteq> c"
      using index_invD(4) [OF assms old] N(1) \<open>n \<noteq> N\<close> by auto
    then show ?thesis
      using index_invD(3,4) [OF assms old]
      by (simp add: unregister_present [OF N] AList.delete_conv')
  qed
  then show ?thesis
    unfolding index_inv_def
    using index_invD(1,2) [OF assms]
    by (simp add: unregister_present [OF N] AList.distinct_delete)
qed

lemma index_inv_apply_op:
  assumes "index_inv r"
    and "\<And>cl ip now. op = Register cl ip now \<Longrightarrow> client_connId cl \<notin> fst ` set (nodesByConn r)"
  shows "index_inv (apply_op lib r op)"
proof (cases op)
  case (Register cl ip now)
  then show ?thesis
    using assms by (simp add: index_inv_register)
next
  case (Unregister c)
  then show ?thesis
    using assms(1) by (simp add: index_inv_unregister)
qed (use assms(1) in \<open>simp_all add: index_inv_def index_frame\<close>)

lemma conn_keys_apply_op:
  "fst ` set (nodesByConn (apply_op lib r op)) \<subseteq>
     fst ` set (nodesByConn r) \<union> set (register_conns [op])"
proof (cases op)
  case (Register cl ip now)
  then show ?thesis
    by (simp add: register_fields AList.dom_update)
next
  case (Unregister c)
  show ?thesis
  proof (cases "map_of (nodesByConn r) c = None \<or> map_of (nodesByConn r) c = Some []")
    case True
    then show ?thesis
      using Unregister by (simp add: unregister_absent)
  next
    case False
    then obtain N where N: "map_of (nodesByConn r) c = Some N" "N \<noteq> []"
      by auto
    show ?thesis
      using Unregister AList.dom_delete_subset [of c "nodesByConn r"]
      by (simp add: unregister_present [OF N])
  qed
qed (simp_all add: index_frame)

lemma register_conns_Cons:
  "register_conns (op # ops) = register_conns [op] @ register_conns ops"
  by (cases op) simp_all

lemma index_inv_foldl:
  assumes "index_inv r" and "distinct (register_conns ops)"
    and "fst ` set (nodesByConn r) \<inter> set (register_conns ops) = {}"
  shows "index_inv (foldl (apply_op lib) r ops)"
  using assms
proof (induction ops arbitrary: r)
  case Nil
  then show ?case by simp
next
  case (Cons op ops)
  have split: "register_conns (op # ops) = register_conns [op] @ register_conns ops"
    by (rule register_conns_Cons)
  have step: "index_inv (apply_op lib r op)"
  proof (rule index_inv_apply_op [OF Cons.prems(1)])
    fix cl ip now
    assume "op = Register cl ip now"
    then show "client_connId cl \<notin> fst ` set (nodesByConn r)"
      using Cons.prems(3) by auto
  qed
  have dist: "distinct (register_conns ops)"
    using Cons.prems(2) by (simp add: split)
  have "fst ` set (nodesByConn (apply_op lib r op)) \<inter> set (register_conns ops) = {}"
    using conn_keys_apply_op [of lib r op] Cons.prems(2,3) by (auto simp add: split)
  from Cons.IH [OF step dist this] show ?case
    by simp
qed


lemma index_bij_register:
  assumes "index_bij r" and "map_of (nodesById r) (client_nodeId cl) = None"
  shows "index_bij (fst (register r cl ip now))"
proof -
  let ?r' = "fst (register r cl ip now)"
  have "\<exists>S. map_of (nodesById ?r') n = Some S \<and> connId S = c"
    if "map_of (nodesByConn ?r') c = Some n" for c n
  proof (cases "c = client_connId cl")
    case True
    then have "n = client_nodeId cl"
      using that by (simp add: register_fields AList.update_conv')
    then show ?thesis
      using True by (simp add: register_fields AList.update_conv')
  next
    case False
    then have "map_of (nodesByConn r) c = Some n"
      using that by (simp add: register_fields AList.update_conv')
    then obtain S where S: "map_of (nodesById r) n = Some S" "connId S = c"
      using assms(1) unfolding index_bij_def by blast
    then have "n \<noteq> client_nodeId cl"
      using assms(2) by auto
    then show ?thesis
      using S by (simp add: register_fields AList.update_conv')
  qed
  then show ?thesis
    unfolding index_bij_def by blast
qed

lemma index_bij_unregister:
  assumes "index_bij r"
  shows "index_bij (fst (unregister r c))"
proof (cases "map_of (nodesByConn r) c = None \<or> map_of (nodesByConn r) c = Some []")
  case True
  then show ?thesis
    using assms by (simp add: unregister_absent)
next
  case False
  then obtain N where N: "map_of (nodesByConn r) c = Some N" "N \<noteq> []"
    by auto
  let ?r' = "fst (unregister r c)"
  have "\<exists>S. map_of (nodesById ?r') n = Some S \<and> connId S = c'"
    if "map_of (nodesByConn ?r') c' = Some n" for c' n
  proof -
    have "c' \<noteq> c" and old: "map_of (nodesByConn r) c' = Some n"
      using that by (auto simp add: unregister_present [OF N] AList.delete_conv' split: if_splits)
    obtain S where S: "map_of (nodesById r) n = Some S" "connId S = c'"
      using assms old unfolding index_bij_def by blast
    obtain S0 where S0: "map_of (nodesById r) N = Some S0" "connId S0 = c"
      using assms N(1) unfolding index_bij_def by blast
    have "n \<noteq> N"
      using S S0 \<open>c' \<noteq> c\<close> by auto
    then show ?thesis
      using S by (simp add: unregister_present [OF N] AList.delete_conv')
  qed
  then show ?thesis
    unfolding index_bij_def by blast
qed

lemma index_bij_apply_op:
  assumes "index_bij r"
    and "\<And>cl ip now. op = Register cl ip now \<Longrightarrow> get r (client_nodeId cl) = None"
  shows "index_bij (apply_op lib r op)"
proof (cases op)
  case (Register cl ip now)
  then show ?thesis
    using assms by (simp add: index_bij_register get_def)
next
  case (Unregister c)
  then show ?thesis
    using assms(1) by (simp add: index_bij_unregister)
qed (use assms(1) in \<open>simp_all add: index_bij_def index_frame\<close>)

lemma index_bij_foldl:
  assumes "index_bij r" and "no_replacement lib r ops"
  shows "index_bij (foldl (apply_op lib) r ops)"
  using assms
proof (induction ops arbitrary: r)
  case Nil
  then show ?case by simp
next
  case (Cons op ops)
  have "index_bij (apply_op lib r op)"
  proof (rule index_bij_apply_op [OF Cons.prems(1)])
    fix cl ip now
    assume "op = Register cl ip now"
    then show "get r (client_nodeId cl) = None"
      using Cons.prems(2) by simp
  qed
  moreover have "no_replacement lib (apply_op lib r op) ops"
    using Cons.prems(2) by simp
  ultimately show ?case
    using Cons.IH by simp
qed

lemma index_count_le:
  assumes "index_inv r"
  shows "length (nodesById r) \<le> length (indexed_conns r)"
proof -
  let ?f = "\<lambda>e. (connId (snd e), fst e)"
  have dist: "distinct (map fst (nodesById r))"
    by (rule index_invD(1) [OF assms])
  have sub: "?f ` set (nodesById r) \<subseteq> set (indexed_conns r)"
  proof
    fix x
    assume "x \<in> ?f ` set (nodesById r)"
    then obtain n S where e: "(n, S) \<in> set (nodesById r)" and x: "x = (connId S, n)"
      by auto
    have "map_of (nodesById r) n = Some S"
      using dist e by (rule map_of_is_SomeI)
    then have "map_of (nodesByConn r) (connId S) = Some n"
      by (rule index_invD(4) [OF assms])
    then have "(connId S, n) \<in> set (nodesByConn r)"
      by (rule map_of_SomeD)
    moreover have "n \<in> fst ` set (nodesById r)"
      using e by force
    ultimately show "x \<in> set (indexed_conns r)"
      using x by (simp add: indexed_conns_def)
  qed
  have inj: "inj_on ?f (set (nodesById r))"
  proof (rule inj_onI)
    fix a b
    assume "a \<in> set (nodesById r)" "b \<in> set (nodesById r)" "?f a = ?f b"
    then show "a = b"
      using dist by (metis eq_key_imp_eq_value prod.collapse prod.inject)
  qed
  have "length (nodesById r) = card (set (nodesById r))"
    using dist by (simp add: distinct_card distinct_map)
  also have "\<dots> = card (?f ` set (nodesById r))"
    using inj by (simp add: card_image)
  also have "\<dots> \<le> card (set (indexed_conns r))"
    using sub by (simp add: card_mono)
  also have "\<dots> \<le> length (indexed_conns r)"
    by (rule card_length)
  finally show ?thesis .
qed

lemma index_count_ge:
  assumes "index_inv r" and "index_bij r"
  shows "length (indexed_conns r) \<le> length (nodesById r)"
proof -
  have dist: "distinct (map fst (nodesByConn r))"
    by (rule index_invD(2) [OF assms(1)])
  then have dist': "distinct (indexed_conns r)"
    by (simp add: indexed_conns_def distinct_map)
  have sub: "snd ` set (indexed_conns r) \<subseteq> set (map fst (nodesById r))"
    by (auto simp add: indexed_conns_def)
  have inj: "inj_on snd (set (indexed_conns r))"
  proof (rule inj_onI)
    fix a b
    assume a: "a \<in> set (indexed_conns r)" and b: "b \<in> set (indexed_conns r)"
      and eq: "snd a = snd b"
    have "map_of (nodesByConn r) (fst a) = Some (snd a)"
      using a dist by (simp add: indexed_conns_def)
    then obtain S where S: "map_of (nodesById r) (snd a) = Some S" "connId S = fst a"
      using assms(2) unfolding index_bij_def by blast
    have "map_of (nodesByConn r) (fst b) = Some (snd b)"
      using b dist by (simp add: indexed_conns_def)
    then obtain S' where S': "map_of (nodesById r) (snd b) = Some S'" "connId S' = fst b"
      using assms(2) unfolding index_bij_def by blast
    have "fst a = fst b"
      using S S' eq by simp
    then show "a = b"
      using eq by (simp add: prod_eq_iff)
  qed
  have "length (indexed_conns r) = card (set (indexed_conns r))"
    using dist' by (simp add: distinct_card)
  also have "\<dots> = card (snd ` set (indexed_conns r))"
    using inj by (simp add: card_image)
  also have "\<dots> \<le> card (set (map fst (nodesById r)))"
    using sub by (simp add: card_mono)
  also have "\<dots> \<le> length (nodesById r)"
    using card_length [of "map fst (nodesById r)"] by simp
  finally show ?thesis .
qed

text \<open>
  C3, as the code has it. In any run from the empty registry whose \<open>register\<close> calls bring
  pairwise different connection ids, after every operation each registered session \<open>S\<close> has
  \<open>byNodeId[S.nodeId] = S\<close> and \<open>byConnId[S.connId] = S.nodeId\<close>, both maps have distinct keys,
  and the number of entries of \<open>byNodeId\<close> is at most the number of connection ids whose image
  is a registered node id; the two numbers are equal when no \<open>register\<close> call of the run
  found its node id already registered.
\<close>

theorem registry_indexes_agree:
  assumes "distinct (register_conns ops)"
  shows "(\<forall>S \<in> set (listConnected (run lib ops)).
            get (run lib ops) (nodeId S) = Some S
            \<and> map_of (nodesByConn (run lib ops)) (connId S) = Some (nodeId S))
       \<and> distinct (map fst (nodesById (run lib ops)))
       \<and> distinct (map fst (nodesByConn (run lib ops)))
       \<and> length (nodesById (run lib ops)) \<le> length (indexed_conns (run lib ops))
       \<and> (no_replacement lib new_NodeRegistry ops \<longrightarrow>
            length (nodesById (run lib ops)) = length (indexed_conns (run lib ops)))"
proof -
  have inv: "index_inv (run lib ops)"
    unfolding run_def
    by (rule index_inv_foldl [OF index_inv_new(1) assms]) (simp add: new_NodeRegistry_def)
  have sessions: "get (run lib ops) (nodeId S) = Some S
      \<and> map_of (nodesByConn (run lib ops)) (connId S) = Some (nodeId S)"
    if S_in: "S \<in> set (listConnected (run lib ops))" for S
  proof -
    obtain n where "(n, S) \<in> set (nodesById (run lib ops))"
      using S_in by (auto simp add: listConnected_def)
    then have "map_of (nodesById (run lib ops)) n = Some S"
      using index_invD(1) [OF inv] by simp
    then show ?thesis
      using index_invD(3,4) [OF inv, of n S] by (simp add: get_def)
  qed
  have eq: "length (nodesById (run lib ops)) = length (indexed_conns (run lib ops))"
    if "no_replacement lib new_NodeRegistry ops"
  proof -
    have "index_bij (run lib ops)"
      unfolding run_def by (rule index_bij_foldl [OF index_inv_new(2) that])
    then show ?thesis
      using index_count_le [OF inv] index_count_ge [OF inv] by simp
  qed
  show ?thesis
    using sessions index_invD(1,2) [OF inv] index_count_le [OF inv] eq by blast
qed

theorem registry_indexes_agree_witness:
  "map_of (nodesByConn (run stub_lib
      [Register buildNodeClient None 0,
       Register (buildNodeClient\<lparr>client_connId := ''conn-2''\<rparr>) None 5])) ''conn-2''
     = Some ''node-1''
   \<and> length (nodesById (run stub_lib [Register buildNodeClient None 0, Unregister ''conn-1'']))
     = length (indexed_conns (run stub_lib
         [Register buildNodeClient None 0, Unregister ''conn-1'']))"
proof -
  let ?ops = "[Register buildNodeClient None 0,
       Register (buildNodeClient\<lparr>client_connId := ''conn-2''\<rparr>) None 5]"
  let ?S = "snd (register new_NodeRegistry (buildNodeClient\<lparr>client_connId := ''conn-2''\<rparr>)
                   None 5)"
  have a: "distinct (register_conns ?ops)"
    by (simp add: buildNodeClient_def)
  have S: "?S \<in> set (listConnected (run stub_lib ?ops))"
    by (simp add: run_eval listConnected_def)
  have S_ids: "connId ?S = ''conn-2''" "nodeId ?S = ''node-1''"
    by (simp_all add: run_eval)
  have first: "map_of (nodesByConn (run stub_lib ?ops)) (connId ?S) = Some (nodeId ?S)"
    using registry_indexes_agree [OF a, of stub_lib] S by blast
  have b: "distinct (register_conns [Register buildNodeClient None 0, Unregister ''conn-1''])"
    by simp
  have c: "no_replacement stub_lib new_NodeRegistry
      [Register buildNodeClient None 0, Unregister ''conn-1'']"
    by (simp add: get_def new_NodeRegistry_def)
  have second: "length (nodesById (run stub_lib [Register buildNodeClient None 0, Unregister ''conn-1'']))
     = length (indexed_conns (run stub_lib
         [Register buildNodeClient None 0, Unregister ''conn-1'']))"
    using registry_indexes_agree [OF b, of stub_lib] c by blast
  show ?thesis
    using first second by (simp add: S_ids)
qed

text \<open>
  Two sessions of one node on two connections leave one node entry and two indexed
  connection ids; and a connection id that registers twice, under two node ids, leaves the
  first session registered while its connection id maps to the second node id.
\<close>

theorem registry_indexes_counterexample:
  "length (nodesById (run stub_lib
      [Register buildNodeClient None 0,
       Register (buildNodeClient\<lparr>client_connId := ''conn-2''\<rparr>) None 5])) = 1
   \<and> length (indexed_conns (run stub_lib
      [Register buildNodeClient None 0,
       Register (buildNodeClient\<lparr>client_connId := ''conn-2''\<rparr>) None 5])) = 2
   \<and> get (run stub_lib
      [Register buildNodeClient None 0,
       Register (buildNodeClient\<lparr>connect := (connect buildNodeClient)\<lparr>client_id := ''node-2''\<rparr>\<rparr>)
         None 5]) ''node-1''
     = Some (snd (register new_NodeRegistry buildNodeClient None 0))
   \<and> map_of (nodesByConn (run stub_lib
      [Register buildNodeClient None 0,
       Register (buildNodeClient\<lparr>connect := (connect buildNodeClient)\<lparr>client_id := ''node-2''\<rparr>\<rparr>)
         None 5])) ''conn-1''
     = Some ''node-2''"
  by (simp add: run_eval indexed_conns_def get_def)


subsection \<open>Bytes in flight\<close>

text \<open>
  Facts on association lists that the accounting needs, then the invariant \<open>inflight_inv\<close>
  through \<open>clearInvokeTransfer\<close>, the one place that releases bytes, and through every
  operation that reaches it.
\<close>

lemma update_absent:
  "map_of xs k = None \<Longrightarrow> AList.update k v xs = xs @ [(k, v)]"
  by (induction xs) (auto split: if_splits)

lemma set_update_subset:
  "set (AList.update k v xs) \<subseteq> insert (k, v) (set xs)"
  by (induction xs) auto

lemma sum_list_delete:
  "distinct (map fst xs) \<Longrightarrow> map_of xs k = Some v \<Longrightarrow>
   sum_list (map f (AList.delete k xs)) = sum_list (map f xs) - (f (k, v) :: int)"
proof (induction xs)
  case Nil
  then show ?case by simp
next
  case (Cons x xs)
  show ?case
  proof (cases "fst x = k")
    case True
    then have "k \<notin> fst ` set xs" and "x = (k, v)"
      using Cons.prems by (auto simp add: prod_eq_iff)
    then show ?thesis
      by simp
  next
    case False
    then have "map_of xs k = Some v" and "distinct (map fst xs)"
      using Cons.prems by (auto split: if_splits)
    then show ?thesis
      using Cons.IH False by simp
  qed
qed

lemma sum_list_update_same:
  "map_of xs k = Some v \<Longrightarrow> f (k, v') = (f (k, v) :: int) \<Longrightarrow>
   sum_list (map f (AList.update k v' xs)) = sum_list (map f xs)"
  by (induction xs) (auto split: if_splits)

lemma clearInvokeTransfer_fields:
  "invokeTransfers (clearInvokeTransfer r i) = AList.delete i (invokeTransfers r)"
  "inflightBytes (clearInvokeTransfer r i) =
     (case map_of (invokeTransfers r) i of
        None \<Rightarrow> inflightBytes r
      | Some t \<Rightarrow> max 0 (inflightBytes r - totalBytes t))"
  "pendingInvokes (clearInvokeTransfer r i) = pendingInvokes r"
  "timers (clearInvokeTransfer r i) = timers r"
  "settlements (clearInvokeTransfer r i) = settlements r"
proof -
  have "AList.delete i (invokeTransfers r) = invokeTransfers r"
    if "map_of (invokeTransfers r) i = None"
    using that by (simp add: map_of_eq_None_iff)
  then show "invokeTransfers (clearInvokeTransfer r i) = AList.delete i (invokeTransfers r)"
    by (simp add: clearInvokeTransfer_def split: option.splits)
qed (simp_all add: clearInvokeTransfer_def split: option.splits)

lemma inflight_inv_fields:
  "inflight_inv r \<Longrightarrow> invokeTransfers r' = invokeTransfers r \<Longrightarrow>
   inflightBytes r' = inflightBytes r \<Longrightarrow> inflight_inv r'"
  by (simp add: inflight_inv_def)

lemma inflight_inv_clearInvokeTransfer:
  assumes "inflight_inv r"
  shows "inflight_inv (clearInvokeTransfer r i)"
proof (cases "map_of (invokeTransfers r) i")
  case None
  then show ?thesis
    using assms by (simp add: clearInvokeTransfer_absent)
next
  case (Some t)
  let ?f = "\<lambda>e. totalBytes (snd e)"
  have dist: "distinct (map fst (invokeTransfers r))"
    and nonneg: "\<forall>e \<in> set (invokeTransfers r). 0 \<le> ?f e"
    and total: "inflightBytes r = sum_list (map ?f (invokeTransfers r))"
    using assms unfolding inflight_inv_def by blast+
  have rest: "sum_list (map ?f (AList.delete i (invokeTransfers r))) = inflightBytes r - totalBytes t"
    using sum_list_delete [OF dist Some, of ?f] total by simp
  have nonneg': "\<forall>e \<in> set (AList.delete i (invokeTransfers r)). 0 \<le> ?f e"
    using nonneg by (auto simp add: AList.delete_eq)
  then have "0 \<le> sum_list (map ?f (AList.delete i (invokeTransfers r)))"
    by (auto intro!: sum_list_nonneg)
  then have "max 0 (inflightBytes r - totalBytes t) = inflightBytes r - totalBytes t"
    using rest by simp
  then show ?thesis
    unfolding inflight_inv_def
    using rest Some nonneg' AList.distinct_delete [OF dist, of i]
    by (simp add: clearInvokeTransfer_fields)
qed

lemma inflight_inv_handleInvokeResult:
  assumes "inflight_inv r"
  shows "inflight_inv (fst (handleInvokeResult r i n ok' pl pj e))"
proof (cases "case map_of (pendingInvokes r) i of None \<Rightarrow> True | Some p \<Rightarrow> p_nodeId p \<noteq> n")
  case True
  then show ?thesis
    using assms by (simp add: handleInvokeResult_nomatch)
next
  case False
  then obtain p where p: "map_of (pendingInvokes r) i = Some p" "p_nodeId p = n"
    by (auto split: option.splits)
  let ?r1 = "r\<lparr>timers := timers r - {i}, pendingInvokes := AList.delete i (pendingInvokes r)\<rparr>"
  have "inflight_inv ?r1"
    by (rule inflight_inv_fields [OF assms]) simp_all
  then have "inflight_inv (clearInvokeTransfer ?r1 i)"
    by (rule inflight_inv_clearInvokeTransfer)
  then show ?thesis
    by (rule inflight_inv_fields) (simp_all add: handleInvokeResult_match [OF p])
qed

lemma inflight_inv_resolveInvokeError:
  "inflight_inv r \<Longrightarrow> inflight_inv (resolveInvokeError r i n e)"
  by (simp add: resolveInvokeError_def inflight_inv_handleInvokeResult)

lemma fold_preserves:
  assumes "\<And>e r. P r \<Longrightarrow> P (f e r)" and "P r"
  shows "P (fold f xs r)"
  using assms(2) by (induction xs arbitrary: r) (simp_all add: assms(1))

lemma inflight_inv_unregister:
  assumes "inflight_inv r"
  shows "inflight_inv (fst (unregister r c))"
proof (cases "map_of (nodesByConn r) c = None \<or> map_of (nodesByConn r) c = Some []")
  case True
  then show ?thesis
    using assms by (simp add: unregister_absent)
next
  case False
  then obtain N where N: "map_of (nodesByConn r) c = Some N" "N \<noteq> []"
    by auto
  let ?r2 = "r\<lparr>nodesByConn := AList.delete c (nodesByConn r),
               nodesById := AList.delete N (nodesById r)\<rparr>"
  let ?r3 = "fold (unregister_pending N) (pendingInvokes ?r2) ?r2"
  have "inflight_inv ?r3"
    by (rule inflight_inv_fields [OF assms]) (simp_all add: fold_unregister_pending_frame)
  then have "inflight_inv (fold (unregister_transfer N) (invokeTransfers ?r3) ?r3)"
    by (rule fold_preserves [rotated])
      (simp add: unregister_transfer_apply inflight_inv_clearInvokeTransfer)
  then show ?thesis
    using N by (simp add: unregister_def Let_def)
qed

lemma inflight_inv_invoke_timeout:
  assumes "inflight_inv r"
  shows "inflight_inv (invoke_timeout r i)"
proof (cases "i \<in> timers r")
  case False
  then show ?thesis
    using assms by (simp add: invoke_timeout_def)
next
  case True
  let ?r2 = "r\<lparr>timers := timers r - {i}, pendingInvokes := AList.delete i (pendingInvokes r)\<rparr>"
  have "inflight_inv ?r2"
    by (rule inflight_inv_fields [OF assms]) simp_all
  then have "inflight_inv (clearInvokeTransfer ?r2 i)"
    by (rule inflight_inv_clearInvokeTransfer)
  then show ?thesis
    by (rule inflight_inv_fields) (simp_all add: invoke_timeout_def Let_def True)
qed

lemma inflight_inv_start:
  assumes "inflight_inv r" and "0 \<le> tb" and "sh \<noteq> None"
  shows "inflight_inv (fst (startInvokeResultTransfer r i n tb cb cc sh mr mi))"
proof -
  have "inflight_inv (r\<lparr>inflightBytes := inflightBytes r + tb,
           invokeTransfers := AList.update i t0 (invokeTransfers r)\<rparr>)"
    if "map_of (invokeTransfers r) i = None" and "totalBytes t0 = tb" for t0
    using assms that unfolding inflight_inv_def
    by (auto simp add: update_absent map_of_eq_None_iff)
  then show ?thesis
    using assms(1,3)
    by (auto simp add: startInvokeResultTransfer_def inflight_inv_resolveInvokeError Let_def)
qed

lemma inflight_inv_store_chunk:
  assumes "inflight_inv r" and "map_of (invokeTransfers r) i = Some t"
  shows "inflight_inv (r\<lparr>invokeTransfers := AList.update i (append_chunk t d) (invokeTransfers r)\<rparr>)"
proof -
  have same: "totalBytes (append_chunk t d) = totalBytes t"
    by (simp add: append_chunk_def)
  have "0 \<le> totalBytes t"
    using assms map_of_SomeD [OF assms(2)] unfolding inflight_inv_def by force
  then have "\<forall>e \<in> set (AList.update i (append_chunk t d) (invokeTransfers r)).
      0 \<le> totalBytes (snd e)"
    using assms(1) set_update_subset [of i "append_chunk t d" "invokeTransfers r"]
    unfolding inflight_inv_def by (auto simp add: same)
  then show ?thesis
    using assms(1) sum_list_update_same [OF assms(2), of "\<lambda>e. totalBytes (snd e)" "append_chunk t d"]
    unfolding inflight_inv_def
    by (simp add: same AList.distinct_update)
qed

lemma inflight_inv_chunk:
  assumes "inflight_inv r"
  shows "inflight_inv (fst (handleInvokeResultChunk lib r i n ix d b))"
  using assms
  by (auto simp add: handleInvokeResultChunk_def Let_def inflight_inv_resolveInvokeError
      inflight_inv_handleInvokeResult inflight_inv_store_chunk split: option.splits)

lemma inflight_inv_abort:
  assumes "inflight_inv r"
  shows "inflight_inv (fst (abortInvokeResultTransfer r i n e))"
  using assms
  by (auto simp add: abortInvokeResultTransfer_def inflight_inv_clearInvokeTransfer
      inflight_inv_handleInvokeResult split: option.splits)

lemma inflight_inv_invoke:
  assumes "inflight_inv r"
  shows "inflight_inv (fst (invoke r n cmd i sent))"
  by (rule inflight_inv_fields [OF assms]) (simp_all add: invoke_def split: option.splits)

lemma inflight_inv_register:
  assumes "inflight_inv r"
  shows "inflight_inv (fst (register r cl ip now))"
  by (rule inflight_inv_fields [OF assms]) (simp_all add: register_fields)

text \<open>
  No operation but an accepted start frame raises \<open>inflightBytes\<close>, and that one raises it to
  at most the \<open>maxInflightBytes\<close> it was checked against.
\<close>

lemma inflight_inv_nonneg:
  assumes "inflight_inv r"
  shows "0 \<le> inflightBytes r"
    and "map_of (invokeTransfers r) i = Some t \<Longrightarrow> 0 \<le> totalBytes t"
proof -
  have "0 \<le> sum_list (map (\<lambda>e. totalBytes (snd e)) (invokeTransfers r))"
    using assms unfolding inflight_inv_def by (auto intro!: sum_list_nonneg)
  then show "0 \<le> inflightBytes r"
    using assms unfolding inflight_inv_def by simp
  show "0 \<le> totalBytes t" if "map_of (invokeTransfers r) i = Some t"
    using assms map_of_SomeD [OF that] unfolding inflight_inv_def by force
qed

lemma clearInvokeTransfer_le:
  assumes "inflight_inv r"
  shows "inflightBytes (clearInvokeTransfer r i) \<le> inflightBytes r"
  using inflight_inv_nonneg(1) [OF assms] inflight_inv_nonneg(2) [OF assms, where i = i]
  by (auto simp add: clearInvokeTransfer_fields split: option.splits)

lemma handleInvokeResult_le:
  assumes "inflight_inv r"
  shows "inflightBytes (fst (handleInvokeResult r i n ok' pl pj e)) \<le> inflightBytes r"
proof (cases "case map_of (pendingInvokes r) i of None \<Rightarrow> True | Some p \<Rightarrow> p_nodeId p \<noteq> n")
  case True
  then show ?thesis
    by (simp add: handleInvokeResult_nomatch)
next
  case False
  then obtain p where p: "map_of (pendingInvokes r) i = Some p" "p_nodeId p = n"
    by (auto split: option.splits)
  let ?r1 = "r\<lparr>timers := timers r - {i}, pendingInvokes := AList.delete i (pendingInvokes r)\<rparr>"
  have "inflight_inv ?r1"
    by (rule inflight_inv_fields [OF assms]) simp_all
  from clearInvokeTransfer_le [OF this, of i] show ?thesis
    by (simp add: handleInvokeResult_match [OF p])
qed

lemma resolveInvokeError_le:
  "inflight_inv r \<Longrightarrow> inflightBytes (resolveInvokeError r i n e) \<le> inflightBytes r"
  by (simp add: resolveInvokeError_def handleInvokeResult_le)

lemma invoke_timeout_le:
  assumes "inflight_inv r"
  shows "inflightBytes (invoke_timeout r i) \<le> inflightBytes r"
proof (cases "i \<in> timers r")
  case False
  then show ?thesis
    by (simp add: invoke_timeout_def)
next
  case True
  let ?r2 = "r\<lparr>timers := timers r - {i}, pendingInvokes := AList.delete i (pendingInvokes r)\<rparr>"
  have "inflight_inv ?r2"
    by (rule inflight_inv_fields [OF assms]) simp_all
  from clearInvokeTransfer_le [OF this, of i] show ?thesis
    by (simp add: invoke_timeout_def Let_def True)
qed

lemma unregister_le:
  assumes "inflight_inv r"
  shows "inflightBytes (fst (unregister r c)) \<le> inflightBytes r"
proof (cases "map_of (nodesByConn r) c = None \<or> map_of (nodesByConn r) c = Some []")
  case True
  then show ?thesis
    by (simp add: unregister_absent)
next
  case False
  then obtain N where N: "map_of (nodesByConn r) c = Some N" "N \<noteq> []"
    by auto
  let ?r2 = "r\<lparr>nodesByConn := AList.delete c (nodesByConn r),
               nodesById := AList.delete N (nodesById r)\<rparr>"
  let ?r3 = "fold (unregister_pending N) (pendingInvokes ?r2) ?r2"
  have "inflight_inv ?r3"
    by (rule inflight_inv_fields [OF assms]) (simp_all add: fold_unregister_pending_frame)
  moreover have "inflightBytes ?r3 \<le> inflightBytes r"
    by (simp add: fold_unregister_pending_frame)
  ultimately have "inflight_inv ?r3 \<and> inflightBytes ?r3 \<le> inflightBytes r"
    by simp
  then have "inflight_inv (fold (unregister_transfer N) (invokeTransfers ?r3) ?r3)
      \<and> inflightBytes (fold (unregister_transfer N) (invokeTransfers ?r3) ?r3) \<le> inflightBytes r"
  proof (rule fold_preserves [rotated])
    fix e r'
    assume "inflight_inv r' \<and> inflightBytes r' \<le> inflightBytes r"
    then show "inflight_inv (unregister_transfer N e r')
        \<and> inflightBytes (unregister_transfer N e r') \<le> inflightBytes r"
      using clearInvokeTransfer_le [of r' "fst e"]
      by (auto simp add: unregister_transfer_apply inflight_inv_clearInvokeTransfer)
  qed
  then show ?thesis
    using N by (simp add: unregister_def Let_def)
qed

lemma start_le:
  assumes "inflight_inv r"
  shows "inflightBytes (fst (startInvokeResultTransfer r i n tb cb cc sh mr mi))
           \<le> max (inflightBytes r) mi"
proof -
  have "inflightBytes (resolveInvokeError r i n e) \<le> max (inflightBytes r) mi" for e
    using resolveInvokeError_le [OF assms, where i = i and n = n and e = e] by simp
  then show ?thesis
    by (auto simp add: startInvokeResultTransfer_def le_max_iff_disj split: option.splits)
qed

lemma chunk_le:
  assumes "inflight_inv r"
  shows "inflightBytes (fst (handleInvokeResultChunk lib r i n ix d b)) \<le> inflightBytes r"
proof -
  have stored: "inflight_inv (r\<lparr>invokeTransfers := AList.update i (append_chunk t x) (invokeTransfers r)\<rparr>)"
    if "map_of (invokeTransfers r) i = Some t" for t x
    by (rule inflight_inv_store_chunk [OF assms that])
  have failed: "inflightBytes (resolveInvokeError r i n e) \<le> inflightBytes r" for e
    by (rule resolveInvokeError_le [OF assms])
  have failed': "inflightBytes (resolveInvokeError
        (r\<lparr>invokeTransfers := AList.update i (append_chunk t x) (invokeTransfers r)\<rparr>) i n e)
      \<le> inflightBytes r"
    if "map_of (invokeTransfers r) i = Some t" for t x e
    using resolveInvokeError_le [OF stored [OF that], where i = i and n = n and e = e and x1 = x]
    by simp
  have completed: "inflightBytes (fst (handleInvokeResult
        (r\<lparr>invokeTransfers := AList.update i (append_chunk t x) (invokeTransfers r)\<rparr>)
        i n ok' pl pj e))
      \<le> inflightBytes r"
    if "map_of (invokeTransfers r) i = Some t" for t x ok' pl pj e
    using handleInvokeResult_le [OF stored [OF that], where i = i and n = n and ok' = ok'
        and pl = pl and pj = pj and e = e and x1 = x]
    by simp
  show ?thesis
    by (auto simp add: handleInvokeResultChunk_def Let_def failed failed' completed
        split: option.splits)
qed

lemma abort_le:
  assumes "inflight_inv r"
  shows "inflightBytes (fst (abortInvokeResultTransfer r i n e)) \<le> inflightBytes r"
  by (auto simp add: abortInvokeResultTransfer_def clearInvokeTransfer_le [OF assms]
      handleInvokeResult_le [OF assms] split: option.splits)

lemma inflight_le_apply_op:
  assumes "inflight_inv r" and "inflightBytes r \<le> B" and "start_limits_safe [op]"
    and "max_safe_integer \<le> B"
  shows "inflightBytes (apply_op lib r op) \<le> B"
proof (cases op)
  case (Register cl ip now)
  then show ?thesis
    using assms(2) by (simp add: register_fields)
next
  case (Unregister c)
  then show ?thesis
    using unregister_le [OF assms(1), of c] assms(2) by simp
next
  case (Invoke n cmd i sent)
  then show ?thesis
    using assms(2) by (simp add: invoke_def split: option.splits)
next
  case (TimerFired i)
  then show ?thesis
    using invoke_timeout_le [OF assms(1), of i] assms(2) by simp
next
  case (HandleInvokeResult i n ok' pl pj e)
  then show ?thesis
    using handleInvokeResult_le [OF assms(1), of i n ok' pl pj e] assms(2) by simp
next
  case (StartInvokeResultTransfer i n tb cb cc sh mr mi)
  then show ?thesis
    using start_le [OF assms(1), of i n tb cb cc sh mr mi] assms(2-4) by simp
next
  case (HandleInvokeResultChunk i n ix d b)
  then show ?thesis
    using chunk_le [OF assms(1), of lib i n ix d b] assms(2) by simp
next
  case (AbortInvokeResultTransfer i n e)
  then show ?thesis
    using abort_le [OF assms(1), of i n e] assms(2) by simp
qed

lemma inflight_inv_foldl:
  assumes "inflight_inv r" and "inflightBytes r \<le> max_safe_integer"
    and "start_totals_nonneg ops" and "start_digests_given ops" and "start_limits_safe ops"
  shows "inflight_inv (foldl (apply_op lib) r ops)
       \<and> inflightBytes (foldl (apply_op lib) r ops) \<le> max_safe_integer"
  using assms
proof (induction ops arbitrary: r)
  case Nil
  then show ?case by simp
next
  case (Cons op ops)
  have "inflight_inv (apply_op lib r op) \<and> start_totals_nonneg ops
      \<and> start_digests_given ops \<and> start_limits_safe ops \<and> start_limits_safe [op]"
    using Cons.prems
    by (cases op)
      (simp_all add: inflight_inv_register inflight_inv_unregister inflight_inv_invoke
        inflight_inv_invoke_timeout inflight_inv_handleInvokeResult inflight_inv_start
        inflight_inv_chunk inflight_inv_abort)
  moreover from this have "inflightBytes (apply_op lib r op) \<le> max_safe_integer"
    using inflight_le_apply_op [OF Cons.prems(1,2), of op lib] by simp
  ultimately show ?case
    using Cons.IH by simp
qed

text \<open>
  C6, as the code has it. In any run from the empty registry in which every start frame
  declares a \<open>totalBytes\<close> that is not negative, carries a \<open>sha256\<close> string and is checked against
  a \<open>maxInflightBytes\<close> within the safe integers, after every operation \<open>inflightBytes\<close> is the
  sum of \<open>totalBytes\<close> over the transfers in the map (whose keys are distinct), is not negative
  and is itself a safe integer: \<open>startInvokeResultTransfer\<close> adds \<open>totalBytes\<close> when it creates a
  transfer, and completion, protocol error, abort, timeout and \<open>unregister\<close> all release
  through \<open>clearInvokeTransfer\<close>, which subtracts it once.
\<close>

theorem inflight_accounting:
  assumes "start_totals_nonneg ops" and "start_digests_given ops" and "start_limits_safe ops"
  shows "inflightBytes (run lib ops)
           = sum_list (map (\<lambda>e. totalBytes (snd e)) (invokeTransfers (run lib ops)))
       \<and> 0 \<le> inflightBytes (run lib ops)
       \<and> inflightBytes (run lib ops) \<le> max_safe_integer
       \<and> distinct (map fst (invokeTransfers (run lib ops)))"
proof -
  have "inflight_inv new_NodeRegistry" "inflightBytes new_NodeRegistry \<le> max_safe_integer"
    by (simp_all add: inflight_inv_def new_NodeRegistry_def max_safe_integer_def)
  then have "inflight_inv (run lib ops) \<and> inflightBytes (run lib ops) \<le> max_safe_integer"
    unfolding run_def using assms by (rule inflight_inv_foldl)
  then have inv: "inflight_inv (run lib ops)"
    and safe: "inflightBytes (run lib ops) \<le> max_safe_integer"
    by simp_all
  from inv have "0 \<le> sum_list (map (\<lambda>e. totalBytes (snd e)) (invokeTransfers (run lib ops)))"
    unfolding inflight_inv_def by (auto intro!: sum_list_nonneg)
  then show ?thesis
    using inv safe unfolding inflight_inv_def by simp
qed


lemmas transfer_eval = startInvokeResultTransfer_def handleInvokeResultChunk_def
  abortInvokeResultTransfer_def handleInvokeResult_def resolveInvokeError_def
  clearInvokeTransfer_def invalid_request_def invoke_error_def append_chunk_def toLowerCase_def
  lower_char_def stub_lib_def Buffer_concat_def


theorem inflight_accounting_witness:
  "0 \<le> inflightBytes (run stub_lib
      [Register buildNodeClient None 0,
       Invoke ''node-1'' ''system.run'' ''req-1'' True,
       StartInvokeResultTransfer ''req-1'' ''node-1'' 22 4 6 (Some ''ab'') 1024 4096,
       TimerFired ''req-1''])"
proof -
  have "start_totals_nonneg
      [Register buildNodeClient None 0,
       Invoke ''node-1'' ''system.run'' ''req-1'' True,
       StartInvokeResultTransfer ''req-1'' ''node-1'' 22 4 6 (Some ''ab'') 1024 4096,
       TimerFired ''req-1'']"
    by simp
  moreover have "start_digests_given
      [Register buildNodeClient None 0,
       Invoke ''node-1'' ''system.run'' ''req-1'' True,
       StartInvokeResultTransfer ''req-1'' ''node-1'' 22 4 6 (Some ''ab'') 1024 4096,
       TimerFired ''req-1'']"
    by simp
  moreover have "start_limits_safe
      [Register buildNodeClient None 0,
       Invoke ''node-1'' ''system.run'' ''req-1'' True,
       StartInvokeResultTransfer ''req-1'' ''node-1'' 22 4 6 (Some ''ab'') 1024 4096,
       TimerFired ''req-1'']"
    by (simp add: max_safe_integer_def)
  ultimately show ?thesis
    using inflight_accounting [where lib = stub_lib] by blast
qed

text \<open>
  Nothing rejects a negative \<open>totalBytes\<close>. One such start frame drives \<open>inflightBytes\<close>
  below zero; and beside a transfer of 10 bytes it makes the clamp of
  \<open>clearInvokeTransfer\<close> cut in, after which the counter (0) is not the sum over the
  transfers left (-5). And a start frame without a \<open>sha256\<close> string (the start calls of
  src/gateway/node-registry.test.ts pass none; here 11 bytes in 3 chunks) throws after its
  bytes have been counted: 11 bytes are in flight and no transfer holds them.
\<close>

theorem inflight_accounting_counterexample:
  "inflightBytes (run stub_lib
      [Register buildNodeClient None 0,
       Invoke ''node-1'' ''system.run'' ''req-1'' True,
       StartInvokeResultTransfer ''req-1'' ''node-1'' (- 5) 4 1 (Some ''ab'') 1024 4096])
    = - 5
   \<and> inflightBytes (run stub_lib
      [Register buildNodeClient None 0,
       Invoke ''node-1'' ''system.run'' ''req-1'' True,
       Invoke ''node-1'' ''system.run'' ''req-2'' True,
       StartInvokeResultTransfer ''req-1'' ''node-1'' 10 4 3 (Some ''ab'') 1024 4096,
       StartInvokeResultTransfer ''req-2'' ''node-1'' (- 5) 4 1 (Some ''ab'') 1024 4096,
       AbortInvokeResultTransfer ''req-1'' ''node-1'' None])
    = 0
   \<and> map (\<lambda>e. totalBytes (snd e)) (invokeTransfers (run stub_lib
      [Register buildNodeClient None 0,
       Invoke ''node-1'' ''system.run'' ''req-1'' True,
       Invoke ''node-1'' ''system.run'' ''req-2'' True,
       StartInvokeResultTransfer ''req-1'' ''node-1'' 10 4 3 (Some ''ab'') 1024 4096,
       StartInvokeResultTransfer ''req-2'' ''node-1'' (- 5) 4 1 (Some ''ab'') 1024 4096,
       AbortInvokeResultTransfer ''req-1'' ''node-1'' None]))
    = [- 5]
   \<and> snd (startInvokeResultTransfer
        (run stub_lib
          [Register buildNodeClient None 0,
           Invoke ''node-1'' ''system.run'' ''req-1'' True])
        ''req-1'' ''node-1'' 11 4 3 None (1024 * 1024) (1024 * 1024))
    = Inl TypeError
   \<and> inflightBytes (run stub_lib
      [Register buildNodeClient None 0,
       Invoke ''node-1'' ''system.run'' ''req-1'' True,
       StartInvokeResultTransfer ''req-1'' ''node-1'' 11 4 3 None (1024 * 1024) (1024 * 1024)])
    = 11
   \<and> invokeTransfers (run stub_lib
      [Register buildNodeClient None 0,
       Invoke ''node-1'' ''system.run'' ''req-1'' True,
       StartInvokeResultTransfer ''req-1'' ''node-1'' 11 4 3 None (1024 * 1024) (1024 * 1024)])
    = []"
  by (simp add: run_eval transfer_eval)


subsection \<open>The invocation and transfer tables\<close>

text \<open>
  The invariant \<open>transfer_inv\<close> is kept by each way of changing the three fields it reads
  (deleting a transfer, dropping a request id from both tables, storing a chunk, starting a
  transfer, adding a pending invoke), hence by each method.
\<close>

lemma map_of_filter_value:
  assumes "distinct (map fst xs)"
  shows "map_of (filter (\<lambda>e. fst e \<notin> fst ` {e \<in> set xs. P (snd e)}) xs) k =
     (case map_of xs k of None \<Rightarrow> None | Some v \<Rightarrow> if P v then None else Some v)"
proof -
  have same: "filter (\<lambda>e. fst e \<notin> fst ` {e \<in> set xs. P (snd e)}) xs = filter (\<lambda>e. \<not> P (snd e)) xs"
  proof (rule filter_cong [OF refl])
    fix e
    assume e: "e \<in> set xs"
    have "P (snd e)" if "e' \<in> set xs" "P (snd e')" "fst e' = fst e" for e'
      using that e assms by (metis eq_key_imp_eq_value prod.collapse)
    then show "(fst e \<notin> fst ` {e \<in> set xs. P (snd e)}) = (\<not> P (snd e))"
      using e by force
  qed
  have "map_of (filter (\<lambda>e. \<not> P (snd e)) xs) k =
     (case map_of xs k of None \<Rightarrow> None | Some v \<Rightarrow> if P v then None else Some v)"
    using assms
  proof (induction xs)
    case Nil
    then show ?case by simp
  next
    case (Cons x xs)
    show ?case
    proof (cases "fst x = k")
      case True
      then have "k \<notin> fst ` set (filter (\<lambda>e. \<not> P (snd e)) xs)"
        using Cons.prems by auto
      then have "map_of (filter (\<lambda>e. \<not> P (snd e)) xs) k = None"
        by (simp add: map_of_eq_None_iff)
      then show ?thesis
        using True by (cases x) simp
    next
      case False
      then show ?thesis
        using Cons by (cases x) simp
    qed
  qed
  then show ?thesis
    by (simp only: same)
qed

lemma transfer_invD:
  assumes "transfer_inv r"
  shows "distinct (map fst (pendingInvokes r))" and "distinct (map fst (invokeTransfers r))"
    and "timers r = fst ` set (pendingInvokes r)"
    and "map_of (invokeTransfers r) i = Some t \<Longrightarrow>
           \<exists>p. map_of (pendingInvokes r) i = Some p \<and> p_nodeId p = t_nodeId t"
    and "map_of (invokeTransfers r) i = Some t \<Longrightarrow> hash t = concat (chunks t)"
    and "map_of (invokeTransfers r) i = Some t \<Longrightarrow>
           bytesReceived t = int (length (concat (chunks t)))"
    and "map_of (invokeTransfers r) i = Some t \<Longrightarrow> nextIndex t = int (length (chunks t))"
  using assms unfolding transfer_inv_def by blast+

lemma transfer_invI:
  assumes "distinct (map fst (pendingInvokes r))" and "distinct (map fst (invokeTransfers r))"
    and "timers r = fst ` set (pendingInvokes r)"
    and "\<And>i t. map_of (invokeTransfers r) i = Some t \<Longrightarrow>
           (\<exists>p. map_of (pendingInvokes r) i = Some p \<and> p_nodeId p = t_nodeId t)
           \<and> hash t = concat (chunks t)
           \<and> bytesReceived t = int (length (concat (chunks t)))
           \<and> nextIndex t = int (length (chunks t))"
  shows "transfer_inv r"
  using assms unfolding transfer_inv_def by blast

lemma keys_delete: "fst ` set (AList.delete k xs) = fst ` set xs - {k}"
  by (auto simp add: AList.delete_eq)

lemma transfer_inv_same:
  assumes "transfer_inv r" and "pendingInvokes r' = pendingInvokes r"
    and "invokeTransfers r' = invokeTransfers r" and "timers r' = timers r"
  shows "transfer_inv r'"
  using assms(1) unfolding transfer_inv_def assms(2-4) .

lemma transfer_inv_clear:
  assumes "transfer_inv r" and "pendingInvokes r' = pendingInvokes r"
    and "invokeTransfers r' = AList.delete i (invokeTransfers r)" and "timers r' = timers r"
  shows "transfer_inv r'"
proof (rule transfer_invI)
  fix j t
  assume "map_of (invokeTransfers r') j = Some t"
  then have "map_of (invokeTransfers r) j = Some t"
    by (auto simp add: assms(3) AList.delete_conv' split: if_splits)
  then show "(\<exists>p. map_of (pendingInvokes r') j = Some p \<and> p_nodeId p = t_nodeId t)
           \<and> hash t = concat (chunks t)
           \<and> bytesReceived t = int (length (concat (chunks t)))
           \<and> nextIndex t = int (length (chunks t))"
    using transfer_invD(4-7) [OF assms(1), of j t] by (simp add: assms(2))
qed (use transfer_invD(1-3) [OF assms(1)] in
      \<open>simp_all add: assms(2-4) AList.distinct_delete\<close>)

lemma transfer_inv_drop:
  assumes "transfer_inv r" and "pendingInvokes r' = AList.delete i (pendingInvokes r)"
    and "invokeTransfers r' = AList.delete i (invokeTransfers r)"
    and "timers r' = timers r - {i}"
  shows "transfer_inv r'"
proof (rule transfer_invI)
  fix j t
  assume "map_of (invokeTransfers r') j = Some t"
  then have j: "j \<noteq> i" "map_of (invokeTransfers r) j = Some t"
    by (auto simp add: assms(3) AList.delete_conv' split: if_splits)
  then show "(\<exists>p. map_of (pendingInvokes r') j = Some p \<and> p_nodeId p = t_nodeId t)
           \<and> hash t = concat (chunks t)
           \<and> bytesReceived t = int (length (concat (chunks t)))
           \<and> nextIndex t = int (length (chunks t))"
    using transfer_invD(4-7) [OF assms(1), of j t] by (simp add: assms(2) AList.delete_conv')
qed (use transfer_invD(1-3) [OF assms(1)] in
      \<open>simp_all add: assms(2-4) AList.distinct_delete keys_delete\<close>)

lemma transfer_inv_store:
  assumes "transfer_inv r" and "map_of (invokeTransfers r) i = Some t"
    and "pendingInvokes r' = pendingInvokes r" and "timers r' = timers r"
    and "invokeTransfers r' = AList.update i (append_chunk t d) (invokeTransfers r)"
  shows "transfer_inv r'"
proof (rule transfer_invI)
  fix j t'
  assume t': "map_of (invokeTransfers r') j = Some t'"
  show "(\<exists>p. map_of (pendingInvokes r') j = Some p \<and> p_nodeId p = t_nodeId t')
           \<and> hash t' = concat (chunks t')
           \<and> bytesReceived t' = int (length (concat (chunks t')))
           \<and> nextIndex t' = int (length (chunks t'))"
  proof (cases "j = i")
    case True
    then have "t' = append_chunk t d"
      using t' by (simp add: assms(5) AList.update_conv')
    then show ?thesis
      using transfer_invD(4-7) [OF assms(1,2)] True
      by (simp add: assms(3) append_chunk_def)
  next
    case False
    then have "map_of (invokeTransfers r) j = Some t'"
      using t' by (simp add: assms(5) AList.update_conv')
    then show ?thesis
      using transfer_invD(4-7) [OF assms(1), of j t'] by (simp add: assms(3))
  qed
qed (use transfer_invD(1-3) [OF assms(1)] in
      \<open>simp_all add: assms(3-5) AList.distinct_update\<close>)

lemma transfer_inv_started:
  assumes "transfer_inv r" and "map_of (pendingInvokes r) i = Some p" and "p_nodeId p = n"
    and "pendingInvokes r' = pendingInvokes r" and "timers r' = timers r"
    and "invokeTransfers r' = AList.update i t0 (invokeTransfers r)"
    and "t_nodeId t0 = n" and "hash t0 = []" and "chunks t0 = []"
    and "bytesReceived t0 = 0" and "nextIndex t0 = 0"
  shows "transfer_inv r'"
proof (rule transfer_invI)
  fix j t'
  assume t': "map_of (invokeTransfers r') j = Some t'"
  show "(\<exists>p. map_of (pendingInvokes r') j = Some p \<and> p_nodeId p = t_nodeId t')
           \<and> hash t' = concat (chunks t')
           \<and> bytesReceived t' = int (length (concat (chunks t')))
           \<and> nextIndex t' = int (length (chunks t'))"
  proof (cases "j = i")
    case True
    then have "t' = t0"
      using t' by (simp add: assms(6) AList.update_conv')
    then show ?thesis
      using assms(2,3) True by (simp add: assms(4,7-11))
  next
    case False
    then have "map_of (invokeTransfers r) j = Some t'"
      using t' by (simp add: assms(6) AList.update_conv')
    then show ?thesis
      using transfer_invD(4-7) [OF assms(1), of j t'] by (simp add: assms(4))
  qed
qed (use transfer_invD(1-3) [OF assms(1)] in
      \<open>simp_all add: assms(4-6) AList.distinct_update\<close>)

lemma transfer_inv_invoked:
  assumes "transfer_inv r" and "i \<notin> fst ` set (pendingInvokes r)"
    and "pendingInvokes r' = AList.update i p (pendingInvokes r)"
    and "timers r' = insert i (timers r)"
    and "invokeTransfers r' = invokeTransfers r"
  shows "transfer_inv r'"
proof (rule transfer_invI)
  fix j t
  assume t: "map_of (invokeTransfers r') j = Some t"
  then obtain q where q: "map_of (pendingInvokes r) j = Some q" "p_nodeId q = t_nodeId t"
    using transfer_invD(4) [OF assms(1), of j t] by (auto simp add: assms(5))
  then have "j \<noteq> i"
    using assms(2) by (auto simp add: map_of_eq_None_iff [symmetric])
  then show "(\<exists>p. map_of (pendingInvokes r') j = Some p \<and> p_nodeId p = t_nodeId t)
           \<and> hash t = concat (chunks t)
           \<and> bytesReceived t = int (length (concat (chunks t)))
           \<and> nextIndex t = int (length (chunks t))"
    using q t transfer_invD(5-7) [OF assms(1), of j t]
    by (simp add: assms(3,5) AList.update_conv')
qed (use transfer_invD(1-3) [OF assms(1)] in
      \<open>simp_all add: assms(3-5) AList.distinct_update AList.dom_update\<close>)


lemma handleInvokeResult_fields:
  assumes "map_of (pendingInvokes r) i = Some p" and "p_nodeId p = n"
  shows "pendingInvokes (fst (handleInvokeResult r i n ok' pl pj e))
           = AList.delete i (pendingInvokes r)"
    and "invokeTransfers (fst (handleInvokeResult r i n ok' pl pj e))
           = AList.delete i (invokeTransfers r)"
    and "timers (fst (handleInvokeResult r i n ok' pl pj e)) = timers r - {i}"
    and "settlements (fst (handleInvokeResult r i n ok' pl pj e))
           = settlements r @ [(i, Resolved \<lparr>ok = ok', payload = pl, payloadJSON = pj, error = e\<rparr>)]"
    and "snd (handleInvokeResult r i n ok' pl pj e) = True"
  by (simp_all add: handleInvokeResult_match [OF assms] clearInvokeTransfer_fields)

lemma transfer_inv_handleInvokeResult:
  assumes "transfer_inv r"
  shows "transfer_inv (fst (handleInvokeResult r i n ok' pl pj e))"
proof (cases "case map_of (pendingInvokes r) i of None \<Rightarrow> True | Some p \<Rightarrow> p_nodeId p \<noteq> n")
  case True
  then show ?thesis
    using assms by (simp add: handleInvokeResult_nomatch)
next
  case False
  then obtain p where p: "map_of (pendingInvokes r) i = Some p" "p_nodeId p = n"
    by (auto split: option.splits)
  show ?thesis
    by (rule transfer_inv_drop [OF assms handleInvokeResult_fields(1-3) [OF p]])
qed

lemma transfer_inv_resolveInvokeError:
  "transfer_inv r \<Longrightarrow> transfer_inv (resolveInvokeError r i n e)"
  by (simp add: resolveInvokeError_def transfer_inv_handleInvokeResult)

lemma transfer_inv_clearInvokeTransfer:
  "transfer_inv r \<Longrightarrow> transfer_inv (clearInvokeTransfer r i)"
  by (rule transfer_inv_clear [where i = i]) (simp_all add: clearInvokeTransfer_fields)

lemma invoke_timeout_fields:
  assumes "i \<in> timers r"
  shows "pendingInvokes (invoke_timeout r i) = AList.delete i (pendingInvokes r)"
    and "invokeTransfers (invoke_timeout r i) = AList.delete i (invokeTransfers r)"
    and "timers (invoke_timeout r i) = timers r - {i}"
    and "settlements (invoke_timeout r i)
           = settlements r @ [(i, Resolved (invoke_error ''TIMEOUT'' ''node invoke timed out''))]"
  using assms by (simp_all add: invoke_timeout_def Let_def clearInvokeTransfer_fields)

lemma transfer_inv_invoke_timeout:
  assumes "transfer_inv r"
  shows "transfer_inv (invoke_timeout r i)"
proof (cases "i \<in> timers r")
  case True
  show ?thesis
    by (rule transfer_inv_drop [OF assms invoke_timeout_fields(1-3) [OF True]])
next
  case False
  then show ?thesis
    using assms by (simp add: invoke_timeout_def)
qed

lemma transfer_inv_unregister:
  assumes "transfer_inv r"
  shows "transfer_inv (fst (unregister r c))"
proof (cases "map_of (nodesByConn r) c = None \<or> map_of (nodesByConn r) c = Some []")
  case True
  then show ?thesis
    using assms by (simp add: unregister_absent)
next
  case False
  then obtain N where N: "map_of (nodesByConn r) c = Some N" "N \<noteq> []"
    by auto
  let ?r' = "fst (unregister r c)"
  note fields = unregister_present(4,5,7) [OF N]
  note dist = transfer_invD(1,2) [OF assms]
  note in_pending = map_of_filter_value [OF dist(1), where P = "\<lambda>p. p_nodeId p = N"]
  note in_transfers = map_of_filter_value [OF dist(2), where P = "\<lambda>t. t_nodeId t = N"]
  show ?thesis
  proof (rule transfer_invI)
    show "distinct (map fst (pendingInvokes ?r'))"
      using dist(1) by (simp add: fields distinct_map_filter)
    show "distinct (map fst (invokeTransfers ?r'))"
      using dist(2) by (simp add: fields distinct_map_filter)
    show "timers ?r' = fst ` set (pendingInvokes ?r')"
      using transfer_invD(3) [OF assms] by (auto simp add: fields)
  next
    fix j t
    assume "map_of (invokeTransfers ?r') j = Some t"
    then have t: "map_of (invokeTransfers r) j = Some t" "t_nodeId t \<noteq> N"
      by (auto simp add: fields in_transfers split: option.splits if_splits)
    obtain p where p: "map_of (pendingInvokes r) j = Some p" "p_nodeId p = t_nodeId t"
      using transfer_invD(4) [OF assms t(1)] by blast
    have "map_of (pendingInvokes ?r') j = Some p"
      using p t(2) by (simp add: fields in_pending)
    then show "(\<exists>p. map_of (pendingInvokes ?r') j = Some p \<and> p_nodeId p = t_nodeId t)
           \<and> hash t = concat (chunks t)
           \<and> bytesReceived t = int (length (concat (chunks t)))
           \<and> nextIndex t = int (length (chunks t))"
      using p(2) transfer_invD(5-7) [OF assms t(1)] by simp
  qed
qed

lemma transfer_inv_start:
  assumes "transfer_inv r"
  shows "transfer_inv (fst (startInvokeResultTransfer r i n tb cb cc sh mr mi))"
proof -
  have "transfer_inv (r\<lparr>inflightBytes := x, invokeTransfers := AList.update i t0 (invokeTransfers r)\<rparr>)"
    if "map_of (pendingInvokes r) i = Some p" and "p_nodeId p = n" and "t_nodeId t0 = n"
      and "hash t0 = []" and "chunks t0 = []" and "bytesReceived t0 = 0" and "nextIndex t0 = 0"
    for p t0 x
    by (rule transfer_inv_started [OF assms that(1,2) _ _ _ that(3-7)]) simp_all
  moreover have "transfer_inv (r\<lparr>inflightBytes := x\<rparr>)" for x
    using assms by (rule transfer_inv_same) simp_all
  ultimately show ?thesis
    using assms
    by (auto simp add: startInvokeResultTransfer_def transfer_inv_resolveInvokeError
        split: option.splits)
qed

lemma transfer_inv_store_chunk:
  assumes "transfer_inv r" and "map_of (invokeTransfers r) i = Some t"
  shows "transfer_inv (r\<lparr>invokeTransfers := AList.update i (append_chunk t d) (invokeTransfers r)\<rparr>)"
  by (rule transfer_inv_store [OF assms]) simp_all

lemma transfer_inv_chunk:
  assumes "transfer_inv r"
  shows "transfer_inv (fst (handleInvokeResultChunk lib r i n ix d b))"
  using assms
  by (auto simp add: handleInvokeResultChunk_def Let_def transfer_inv_resolveInvokeError
      transfer_inv_handleInvokeResult transfer_inv_store_chunk split: option.splits)

lemma transfer_inv_abort:
  assumes "transfer_inv r"
  shows "transfer_inv (fst (abortInvokeResultTransfer r i n e))"
  using assms
  by (auto simp add: abortInvokeResultTransfer_def transfer_inv_clearInvokeTransfer
      transfer_inv_handleInvokeResult split: option.splits)

lemma transfer_inv_invoke:
  assumes "transfer_inv r" and "i \<notin> fst ` set (pendingInvokes r)"
  shows "transfer_inv (fst (invoke r n cmd i sent))"
proof (cases "map_of (nodesById r) n = None \<or> \<not> sent")
  case True
  then show ?thesis
    using assms(1) by (auto simp add: invoke_def split: option.splits)
next
  case False
  show ?thesis
    by (rule transfer_inv_invoked [OF assms, where p = "\<lparr>p_nodeId = n, command = cmd\<rparr>"])
      (use False in \<open>auto simp add: invoke_def\<close>)
qed

lemma transfer_inv_register:
  assumes "transfer_inv r"
  shows "transfer_inv (fst (register r cl ip now))"
  by (rule transfer_inv_same [OF assms]) (simp_all add: register_fields)

lemma transfer_inv_apply_op:
  assumes "transfer_inv r"
    and "\<And>n cmd i sent. op = Invoke n cmd i sent \<Longrightarrow> i \<notin> fst ` set (pendingInvokes r)"
  shows "transfer_inv (apply_op lib r op)"
  using assms
  by (cases op)
    (simp_all add: transfer_inv_register transfer_inv_unregister transfer_inv_invoke
      transfer_inv_invoke_timeout transfer_inv_handleInvokeResult transfer_inv_start
      transfer_inv_chunk transfer_inv_abort)

text \<open>
  What each method leaves under one request id, as lookups in the two tables; and
  \<open>handleInvokeResultChunk\<close> branch by branch.
\<close>

lemma owns_iff: "owns r i n \<longleftrightarrow> (\<exists>p. map_of (pendingInvokes r) i = Some p \<and> p_nodeId p = n)"
  by (simp add: owns_def split: option.splits)

lemma handleInvokeResult_view:
  "map_of (pendingInvokes (fst (handleInvokeResult r j n ok' pl pj e))) k =
     (if k = j \<and> owns r j n then None else map_of (pendingInvokes r) k)"
  "map_of (invokeTransfers (fst (handleInvokeResult r j n ok' pl pj e))) k =
     (if k = j \<and> owns r j n then None else map_of (invokeTransfers r) k)"
  "timers (fst (handleInvokeResult r j n ok' pl pj e)) =
     (if owns r j n then timers r - {j} else timers r)"
  "settlements (fst (handleInvokeResult r j n ok' pl pj e)) =
     (if owns r j n
      then settlements r @ [(j, Resolved \<lparr>ok = ok', payload = pl, payloadJSON = pj, error = e\<rparr>)]
      else settlements r)"
  "snd (handleInvokeResult r j n ok' pl pj e) = owns r j n"
proof -
  show "map_of (pendingInvokes (fst (handleInvokeResult r j n ok' pl pj e))) k =
     (if k = j \<and> owns r j n then None else map_of (pendingInvokes r) k)"
  proof (cases "owns r j n")
    case True
    then obtain p where p: "map_of (pendingInvokes r) j = Some p" "p_nodeId p = n"
      by (auto simp add: owns_iff)
    show ?thesis
      using True by (simp add: handleInvokeResult_fields [OF p] AList.delete_conv')
  next
    case False
    then show ?thesis
      by (simp add: handleInvokeResult_nomatch owns_def split: option.splits)
  qed
  show "map_of (invokeTransfers (fst (handleInvokeResult r j n ok' pl pj e))) k =
     (if k = j \<and> owns r j n then None else map_of (invokeTransfers r) k)"
  proof (cases "owns r j n")
    case True
    then obtain p where p: "map_of (pendingInvokes r) j = Some p" "p_nodeId p = n"
      by (auto simp add: owns_iff)
    show ?thesis
      using True by (simp add: handleInvokeResult_fields [OF p] AList.delete_conv')
  next
    case False
    then show ?thesis
      by (simp add: handleInvokeResult_nomatch owns_def split: option.splits)
  qed
  show "timers (fst (handleInvokeResult r j n ok' pl pj e)) =
     (if owns r j n then timers r - {j} else timers r)"
  proof (cases "owns r j n")
    case True
    then obtain p where p: "map_of (pendingInvokes r) j = Some p" "p_nodeId p = n"
      by (auto simp add: owns_iff)
    show ?thesis
      using True by (simp add: handleInvokeResult_fields [OF p])
  next
    case False
    then show ?thesis
      by (simp add: handleInvokeResult_nomatch owns_def split: option.splits)
  qed
  show "settlements (fst (handleInvokeResult r j n ok' pl pj e)) =
     (if owns r j n
      then settlements r @ [(j, Resolved \<lparr>ok = ok', payload = pl, payloadJSON = pj, error = e\<rparr>)]
      else settlements r)"
  proof (cases "owns r j n")
    case True
    then obtain p where p: "map_of (pendingInvokes r) j = Some p" "p_nodeId p = n"
      by (auto simp add: owns_iff)
    show ?thesis
      using True by (simp add: handleInvokeResult_fields [OF p])
  next
    case False
    then show ?thesis
      by (simp add: handleInvokeResult_nomatch owns_def split: option.splits)
  qed
  show "snd (handleInvokeResult r j n ok' pl pj e) = owns r j n"
  proof (cases "owns r j n")
    case True
    then obtain p where p: "map_of (pendingInvokes r) j = Some p" "p_nodeId p = n"
      by (auto simp add: owns_iff)
    show ?thesis
      using True by (simp add: handleInvokeResult_fields [OF p])
  next
    case False
    then show ?thesis
      by (simp add: handleInvokeResult_nomatch owns_def split: option.splits)
  qed
qed

lemma resolveInvokeError_view:
  "map_of (pendingInvokes (resolveInvokeError r j n e)) k =
     (if k = j \<and> owns r j n then None else map_of (pendingInvokes r) k)"
  "map_of (invokeTransfers (resolveInvokeError r j n e)) k =
     (if k = j \<and> owns r j n then None else map_of (invokeTransfers r) k)"
  "timers (resolveInvokeError r j n e) = (if owns r j n then timers r - {j} else timers r)"
  "settlements (resolveInvokeError r j n e) =
     (if owns r j n
      then settlements r @ [(j, Resolved \<lparr>ok = False, payload = None, payloadJSON = None,
                                       error = Some e\<rparr>)]
      else settlements r)"
  by (simp_all add: resolveInvokeError_def handleInvokeResult_view)

lemma owns_stored [simp]:
  "owns (r\<lparr>invokeTransfers := ts\<rparr>) j n = owns r j n"
  by (simp add: owns_def)

lemma chunk_unknown:
  assumes "\<not> (\<exists>t. map_of (invokeTransfers r) i = Some t \<and> t_nodeId t = n)"
  shows "handleInvokeResultChunk lib r i n ix d b =
     (if owns r i n then resolveInvokeError r i n (invalid_request ''unknown invoke id'') else r,
      TransferFailed unknown_invoke_id ''unknown invoke id'')"
  using assms
  by (auto simp add: handleInvokeResultChunk_def owns_def split: option.splits)

lemma chunk_out_of_order:
  assumes "map_of (invokeTransfers r) i = Some t" and "t_nodeId t = n"
    and "ix \<noteq> nextIndex t \<or> chunkCount t \<le> ix"
  shows "handleInvokeResultChunk lib r i n ix d b =
     (resolveInvokeError r i n (invalid_request ''chunk out of order''),
      TransferFailed chunk_out_of_order ''chunk out of order'')"
  using assms by (auto simp add: handleInvokeResultChunk_def)

lemma chunk_bytes_mismatch:
  assumes "map_of (invokeTransfers r) i = Some t" and "t_nodeId t = n"
    and "ix = nextIndex t" and "ix < chunkCount t"
    and "int (length (base64_decode lib d)) \<noteq> b
         \<or> totalBytes t < bytesReceived t + int (length (base64_decode lib d))"
  shows "handleInvokeResultChunk lib r i n ix d b =
     (resolveInvokeError r i n (invalid_request ''chunk bytes mismatch''),
      TransferFailed chunk_bytes_mismatch ''chunk bytes mismatch'')"
  using assms by (auto simp add: handleInvokeResultChunk_def Let_def)

lemma chunk_stored:
  assumes "map_of (invokeTransfers r) i = Some t" and "t_nodeId t = n"
    and "chunk_fits lib t ix d b" and "nextIndex t + 1 \<noteq> chunkCount t"
  shows "handleInvokeResultChunk lib r i n ix d b =
     (r\<lparr>invokeTransfers :=
          AList.update i (append_chunk t (base64_decode lib d)) (invokeTransfers r)\<rparr>,
      TransferOk)"
  using assms
  by (auto simp add: handleInvokeResultChunk_def Let_def chunk_fits_def append_chunk_def)

lemma chunk_final_size:
  assumes "map_of (invokeTransfers r) i = Some t" and "t_nodeId t = n"
    and "chunk_fits lib t ix d b" and "nextIndex t + 1 = chunkCount t"
    and "bytesReceived t + int (length (base64_decode lib d)) \<noteq> totalBytes t"
  shows "handleInvokeResultChunk lib r i n ix d b =
     (resolveInvokeError
        (r\<lparr>invokeTransfers :=
             AList.update i (append_chunk t (base64_decode lib d)) (invokeTransfers r)\<rparr>)
        i n (invalid_request ''chunk bytes mismatch''),
      TransferFailed chunk_bytes_mismatch ''chunk bytes mismatch'')"
  using assms
  by (auto simp add: handleInvokeResultChunk_def Let_def chunk_fits_def append_chunk_def)

lemma chunk_final_hash:
  assumes "map_of (invokeTransfers r) i = Some t" and "t_nodeId t = n"
    and "chunk_fits lib t ix d b" and "nextIndex t + 1 = chunkCount t"
    and "bytesReceived t + int (length (base64_decode lib d)) = totalBytes t"
    and "toLowerCase (sha256_hex lib (hash t @ base64_decode lib d)) \<noteq> sha256 t"
  shows "handleInvokeResultChunk lib r i n ix d b =
     (resolveInvokeError
        (r\<lparr>invokeTransfers :=
             AList.update i (append_chunk t (base64_decode lib d)) (invokeTransfers r)\<rparr>)
        i n (invalid_request ''hash mismatch''),
      TransferFailed hash_mismatch ''hash mismatch'')"
  using assms
  by (auto simp add: handleInvokeResultChunk_def Let_def chunk_fits_def append_chunk_def)

lemma chunk_completed:
  assumes "map_of (invokeTransfers r) i = Some t" and "t_nodeId t = n"
    and "chunk_fits lib t ix d b" and "chunk_completes lib t d"
  shows "handleInvokeResultChunk lib r i n ix d b =
     (fst (handleInvokeResult
        (r\<lparr>invokeTransfers :=
             AList.update i (append_chunk t (base64_decode lib d)) (invokeTransfers r)\<rparr>)
        i n True None
        (Some (utf8_decode lib
                 (Buffer_concat (chunks t @ [base64_decode lib d]) (totalBytes t))))
        None),
      TransferOk)"
  using assms
  by (auto simp add: handleInvokeResultChunk_def Let_def chunk_fits_def chunk_completes_def
      append_chunk_def)

lemma clearInvokeTransfer_view:
  "map_of (pendingInvokes (clearInvokeTransfer r j)) k = map_of (pendingInvokes r) k"
  "map_of (invokeTransfers (clearInvokeTransfer r j)) k =
     (if k = j then None else map_of (invokeTransfers r) k)"
  by (simp_all add: clearInvokeTransfer_fields AList.delete_conv')

lemma invoke_timeout_view:
  "map_of (pendingInvokes (invoke_timeout r j)) k =
     (if k = j \<and> j \<in> timers r then None else map_of (pendingInvokes r) k)"
  "map_of (invokeTransfers (invoke_timeout r j)) k =
     (if k = j \<and> j \<in> timers r then None else map_of (invokeTransfers r) k)"
proof -
  show "map_of (pendingInvokes (invoke_timeout r j)) k =
     (if k = j \<and> j \<in> timers r then None else map_of (pendingInvokes r) k)"
  proof (cases "j \<in> timers r")
    case True
    then show ?thesis
      by (simp add: invoke_timeout_fields AList.delete_conv')
  next
    case False
    then show ?thesis
      by (simp add: invoke_timeout_def)
  qed
  show "map_of (invokeTransfers (invoke_timeout r j)) k =
     (if k = j \<and> j \<in> timers r then None else map_of (invokeTransfers r) k)"
  proof (cases "j \<in> timers r")
    case True
    then show ?thesis
      by (simp add: invoke_timeout_fields AList.delete_conv')
  next
    case False
    then show ?thesis
      by (simp add: invoke_timeout_def)
  qed
qed

lemma invoke_view:
  "map_of (invokeTransfers (fst (invoke r n cmd j sent))) k = map_of (invokeTransfers r) k"
  "k \<noteq> j \<Longrightarrow> map_of (pendingInvokes (fst (invoke r n cmd j sent))) k = map_of (pendingInvokes r) k"
  by (simp_all add: invoke_def AList.update_conv' split: option.splits)

lemma register_view:
  "map_of (pendingInvokes (fst (register r cl ip now))) k = map_of (pendingInvokes r) k"
  "map_of (invokeTransfers (fst (register r cl ip now))) k = map_of (invokeTransfers r) k"
  by (simp_all add: register_fields)

lemma unregister_view:
  assumes "transfer_inv r"
  shows "map_of (pendingInvokes (fst (unregister r c))) k = map_of (pendingInvokes r) k
         \<and> map_of (invokeTransfers (fst (unregister r c))) k = map_of (invokeTransfers r) k
       \<or> map_of (pendingInvokes (fst (unregister r c))) k = None
         \<and> map_of (invokeTransfers (fst (unregister r c))) k = None"
proof (cases "map_of (nodesByConn r) c = None \<or> map_of (nodesByConn r) c = Some []")
  case True
  then show ?thesis
    by (simp add: unregister_absent)
next
  case False
  then obtain N where N: "map_of (nodesByConn r) c = Some N" "N \<noteq> []"
    by auto
  note fields = unregister_present(4,7) [OF N]
  note dist = transfer_invD(1,2) [OF assms]
  note in_pending = map_of_filter_value [OF dist(1), where P = "\<lambda>p. p_nodeId p = N"]
  note in_transfers = map_of_filter_value [OF dist(2), where P = "\<lambda>t. t_nodeId t = N"]
  show ?thesis
  proof (cases "map_of (invokeTransfers r) k")
    case None
    then show ?thesis
      by (auto simp add: fields in_pending in_transfers split: option.splits)
  next
    case (Some t)
    then obtain p where "map_of (pendingInvokes r) k = Some p" "p_nodeId p = t_nodeId t"
      using transfer_invD(4) [OF assms] by blast
    then show ?thesis
      using Some by (auto simp add: fields in_pending in_transfers)
  qed
qed

lemma start_view_other:
  "k \<noteq> j \<Longrightarrow>
   map_of (pendingInvokes (fst (startInvokeResultTransfer r j n tb cb cc sh mr mi))) k
     = map_of (pendingInvokes r) k"
  "k \<noteq> j \<Longrightarrow>
   map_of (invokeTransfers (fst (startInvokeResultTransfer r j n tb cb cc sh mr mi))) k
     = map_of (invokeTransfers r) k"
  by (simp_all add: startInvokeResultTransfer_def resolveInvokeError_view AList.update_conv'
      split: option.splits)

lemma start_accepted:
  assumes "owns r i n" and "map_of (invokeTransfers r) i = None"
    and "tb \<le> mr" and "inflightBytes r + tb \<le> mi"
  shows "startInvokeResultTransfer r i n tb cb cc (Some sh) mr mi =
     (r\<lparr>inflightBytes := inflightBytes r + tb,
        invokeTransfers :=
          AList.update i
            \<lparr>t_nodeId = n, totalBytes = tb, chunkBytes = cb, chunkCount = cc, nextIndex = 0,
             bytesReceived = 0, sha256 = toLowerCase sh, hash = [], chunks = []\<rparr>
            (invokeTransfers r)\<rparr>,
      Inr TransferOk)"
  using assms
  by (auto simp add: startInvokeResultTransfer_def owns_def Let_def split: option.splits)

lemma start_threw:
  assumes "owns r i n" and "map_of (invokeTransfers r) i = None"
    and "tb \<le> mr" and "inflightBytes r + tb \<le> mi"
  shows "startInvokeResultTransfer r i n tb cb cc None mr mi =
     (r\<lparr>inflightBytes := inflightBytes r + tb\<rparr>, Inl TypeError)"
  using assms
  by (auto simp add: startInvokeResultTransfer_def owns_def Let_def split: option.splits)

lemma start_rejected:
  assumes "owns r i n"
    and "map_of (invokeTransfers r) i \<noteq> None \<or> mr < tb \<or> mi < inflightBytes r + tb"
  shows "fst (startInvokeResultTransfer r i n tb cb cc sh mr mi) =
     resolveInvokeError r i n
       (invalid_request (if map_of (invokeTransfers r) i \<noteq> None then ''chunk out of order''
                         else ''payload too large''))"
    and "snd (startInvokeResultTransfer r i n tb cb cc sh mr mi) \<noteq> Inr TransferOk"
  using assms by (auto simp add: startInvokeResultTransfer_def owns_def split: option.splits)

lemma start_unknown:
  assumes "\<not> owns r i n"
  shows "startInvokeResultTransfer r i n tb cb cc sh mr mi =
     (r, Inr (TransferFailed unknown_invoke_id ''unknown invoke id''))"
  using assms by (auto simp add: startInvokeResultTransfer_def owns_def split: option.splits)

lemma abort_view_other:
  "k \<noteq> j \<Longrightarrow>
   map_of (pendingInvokes (fst (abortInvokeResultTransfer r j n e))) k = map_of (pendingInvokes r) k"
  "k \<noteq> j \<Longrightarrow>
   map_of (invokeTransfers (fst (abortInvokeResultTransfer r j n e))) k = map_of (invokeTransfers r) k"
  by (simp_all add: abortInvokeResultTransfer_def handleInvokeResult_view
      clearInvokeTransfer_view split: option.splits)

lemma abort_view:
  assumes "transfer_inv r"
  shows "map_of (pendingInvokes (fst (abortInvokeResultTransfer r j n e))) k =
     (if k = j \<and> owns r j n then None else map_of (pendingInvokes r) k)"
    and "map_of (invokeTransfers (fst (abortInvokeResultTransfer r j n e))) k =
     (if k = j \<and> owns r j n then None else map_of (invokeTransfers r) k)"
proof -
  have "owns r j n" if "map_of (invokeTransfers r) j = Some t" "t_nodeId t = n" for t
    using transfer_invD(4) [OF assms that(1)] that(2) by (auto simp add: owns_iff)
  then show "map_of (pendingInvokes (fst (abortInvokeResultTransfer r j n e))) k =
     (if k = j \<and> owns r j n then None else map_of (pendingInvokes r) k)"
    and "map_of (invokeTransfers (fst (abortInvokeResultTransfer r j n e))) k =
     (if k = j \<and> owns r j n then None else map_of (invokeTransfers r) k)"
    by (auto simp add: abortInvokeResultTransfer_def handleInvokeResult_view
        clearInvokeTransfer_view owns_def split: option.splits)
qed

lemma chunk_view_other:
  "k \<noteq> j \<Longrightarrow>
   map_of (pendingInvokes (fst (handleInvokeResultChunk lib r j n ix d b))) k
     = map_of (pendingInvokes r) k"
  "k \<noteq> j \<Longrightarrow>
   map_of (invokeTransfers (fst (handleInvokeResultChunk lib r j n ix d b))) k
     = map_of (invokeTransfers r) k"
  by (simp_all add: handleInvokeResultChunk_def Let_def resolveInvokeError_view
      handleInvokeResult_view AList.update_conv' split: option.splits)

lemma handleInvokeResult_resolved:
  assumes "owns r i n"
  shows "resolved_with r i \<lparr>ok = ok', payload = pl, payloadJSON = pj, error = e\<rparr>
           (fst (handleInvokeResult r i n ok' pl pj e))"
proof -
  obtain p where p: "map_of (pendingInvokes r) i = Some p" "p_nodeId p = n"
    using assms by (auto simp add: owns_iff)
  show ?thesis
    unfolding resolved_with_def
    by (simp add: handleInvokeResult_match [OF p] clearInvokeTransfer_fields
        clearInvokeTransfer_index split: option.splits)
qed

lemma resolveInvokeError_resolved:
  assumes "owns r i n"
  shows "resolved_with r i (invoke_error ''INVALID_REQUEST'' m)
           (resolveInvokeError r i n (invalid_request m))"
  using handleInvokeResult_resolved [OF assms]
  by (simp add: resolveInvokeError_def invoke_error_def invalid_request_def)

lemma resolved_with_stored:
  assumes "map_of (invokeTransfers r) i = Some t"
    and "resolved_with
           (r\<lparr>invokeTransfers := AList.update i (append_chunk t d) (invokeTransfers r)\<rparr>)
           i res r'"
  shows "resolved_with r i res r'"
  using assms
  by (simp add: resolved_with_def AList.delete_update_same AList.update_conv' append_chunk_def)

lemma resolved_with_view:
  assumes "resolved_with r i res r'"
  shows "map_of (pendingInvokes r') k = (if k = i then None else map_of (pendingInvokes r) k)"
    and "map_of (invokeTransfers r') k = (if k = i then None else map_of (invokeTransfers r) k)"
  using assms by (simp_all add: resolved_with_def AList.delete_conv')

text \<open>The outcome of a chunk for a transfer of the same node, branch by branch.\<close>

lemma chunk_outcome:
  assumes inv: "transfer_inv r" and t: "map_of (invokeTransfers r) i = Some t" "t_nodeId t = n"
  shows "ix \<noteq> nextIndex t \<or> chunkCount t \<le> ix \<Longrightarrow>
           snd (handleInvokeResultChunk lib r i n ix d b)
             = TransferFailed chunk_out_of_order ''chunk out of order''
           \<and> resolved_with r i (invoke_error ''INVALID_REQUEST'' ''chunk out of order'')
               (fst (handleInvokeResultChunk lib r i n ix d b))"
    and "ix = nextIndex t \<Longrightarrow> ix < chunkCount t \<Longrightarrow> \<not> chunk_fits lib t ix d b \<Longrightarrow>
           snd (handleInvokeResultChunk lib r i n ix d b)
             = TransferFailed chunk_bytes_mismatch ''chunk bytes mismatch''
           \<and> resolved_with r i (invoke_error ''INVALID_REQUEST'' ''chunk bytes mismatch'')
               (fst (handleInvokeResultChunk lib r i n ix d b))"
    and "chunk_fits lib t ix d b \<Longrightarrow> nextIndex t + 1 \<noteq> chunkCount t \<Longrightarrow>
           handleInvokeResultChunk lib r i n ix d b =
             (r\<lparr>invokeTransfers :=
                  AList.update i (append_chunk t (base64_decode lib d)) (invokeTransfers r)\<rparr>,
              TransferOk)"
    and "chunk_fits lib t ix d b \<Longrightarrow> nextIndex t + 1 = chunkCount t \<Longrightarrow>
         bytesReceived t + int (length (base64_decode lib d)) \<noteq> totalBytes t \<Longrightarrow>
           snd (handleInvokeResultChunk lib r i n ix d b)
             = TransferFailed chunk_bytes_mismatch ''chunk bytes mismatch''
           \<and> resolved_with r i (invoke_error ''INVALID_REQUEST'' ''chunk bytes mismatch'')
               (fst (handleInvokeResultChunk lib r i n ix d b))"
    and "chunk_fits lib t ix d b \<Longrightarrow> nextIndex t + 1 = chunkCount t \<Longrightarrow>
         bytesReceived t + int (length (base64_decode lib d)) = totalBytes t \<Longrightarrow>
         toLowerCase (sha256_hex lib (hash t @ base64_decode lib d)) \<noteq> sha256 t \<Longrightarrow>
           snd (handleInvokeResultChunk lib r i n ix d b)
             = TransferFailed hash_mismatch ''hash mismatch''
           \<and> resolved_with r i (invoke_error ''INVALID_REQUEST'' ''hash mismatch'')
               (fst (handleInvokeResultChunk lib r i n ix d b))"
    and "chunk_fits lib t ix d b \<Longrightarrow> chunk_completes lib t d \<Longrightarrow>
           snd (handleInvokeResultChunk lib r i n ix d b) = TransferOk
           \<and> resolved_with r i
               \<lparr>ok = True, payload = None,
                payloadJSON = Some (utf8_decode lib
                  (Buffer_concat (chunks t @ [base64_decode lib d]) (totalBytes t))),
                error = None\<rparr>
               (fst (handleInvokeResultChunk lib r i n ix d b))"
proof -
  let ?r' = "r\<lparr>invokeTransfers :=
                AList.update i (append_chunk t (base64_decode lib d)) (invokeTransfers r)\<rparr>"
  have own: "owns r i n"
    using transfer_invD(4) [OF inv t(1)] t(2) by (auto simp add: owns_iff)
  then have own': "owns ?r' i n"
    by simp
  show "ix \<noteq> nextIndex t \<or> chunkCount t \<le> ix \<Longrightarrow>
           snd (handleInvokeResultChunk lib r i n ix d b)
             = TransferFailed chunk_out_of_order ''chunk out of order''
           \<and> resolved_with r i (invoke_error ''INVALID_REQUEST'' ''chunk out of order'')
               (fst (handleInvokeResultChunk lib r i n ix d b))"
    by (simp add: chunk_out_of_order [OF t] resolveInvokeError_resolved [OF own])
  show "ix = nextIndex t \<Longrightarrow> ix < chunkCount t \<Longrightarrow> \<not> chunk_fits lib t ix d b \<Longrightarrow>
           snd (handleInvokeResultChunk lib r i n ix d b)
             = TransferFailed chunk_bytes_mismatch ''chunk bytes mismatch''
           \<and> resolved_with r i (invoke_error ''INVALID_REQUEST'' ''chunk bytes mismatch'')
               (fst (handleInvokeResultChunk lib r i n ix d b))"
    using chunk_bytes_mismatch [OF t, of ix lib d b]
    by (auto simp add: chunk_fits_def resolveInvokeError_resolved [OF own])
  show "chunk_fits lib t ix d b \<Longrightarrow> nextIndex t + 1 \<noteq> chunkCount t \<Longrightarrow>
           handleInvokeResultChunk lib r i n ix d b = (?r', TransferOk)"
    by (rule chunk_stored [OF t])
  show "chunk_fits lib t ix d b \<Longrightarrow> nextIndex t + 1 = chunkCount t \<Longrightarrow>
         bytesReceived t + int (length (base64_decode lib d)) \<noteq> totalBytes t \<Longrightarrow>
           snd (handleInvokeResultChunk lib r i n ix d b)
             = TransferFailed chunk_bytes_mismatch ''chunk bytes mismatch''
           \<and> resolved_with r i (invoke_error ''INVALID_REQUEST'' ''chunk bytes mismatch'')
               (fst (handleInvokeResultChunk lib r i n ix d b))"
    using resolved_with_stored [OF t(1) resolveInvokeError_resolved [OF own']]
    by (simp add: chunk_final_size [OF t])
  show "chunk_fits lib t ix d b \<Longrightarrow> nextIndex t + 1 = chunkCount t \<Longrightarrow>
         bytesReceived t + int (length (base64_decode lib d)) = totalBytes t \<Longrightarrow>
         toLowerCase (sha256_hex lib (hash t @ base64_decode lib d)) \<noteq> sha256 t \<Longrightarrow>
           snd (handleInvokeResultChunk lib r i n ix d b)
             = TransferFailed hash_mismatch ''hash mismatch''
           \<and> resolved_with r i (invoke_error ''INVALID_REQUEST'' ''hash mismatch'')
               (fst (handleInvokeResultChunk lib r i n ix d b))"
    using resolved_with_stored [OF t(1) resolveInvokeError_resolved [OF own']]
    by (simp add: chunk_final_hash [OF t])
  show "chunk_fits lib t ix d b \<Longrightarrow> chunk_completes lib t d \<Longrightarrow>
           snd (handleInvokeResultChunk lib r i n ix d b) = TransferOk
           \<and> resolved_with r i
               \<lparr>ok = True, payload = None,
                payloadJSON = Some (utf8_decode lib
                  (Buffer_concat (chunks t @ [base64_decode lib d]) (totalBytes t))),
                error = None\<rparr>
               (fst (handleInvokeResultChunk lib r i n ix d b))"
    using resolved_with_stored [OF t(1) handleInvokeResult_resolved [OF own']]
    by (simp add: chunk_completed [OF t])
qed

lemma live_iff: "live r i \<longleftrightarrow> (\<exists>p. map_of (pendingInvokes r) i = Some p)"
  by (simp add: live_def)

lemma owns_live: "owns r i n \<Longrightarrow> live r i"
  by (auto simp add: owns_iff live_def)

lemma not_live_no_transfer:
  assumes "transfer_inv r" and "\<not> live r i"
  shows "map_of (invokeTransfers r) i = None"
proof (cases "map_of (invokeTransfers r) i")
  case (Some t)
  then show ?thesis
    using transfer_invD(4) [OF assms(1) Some] assms(2) by (auto simp add: live_def)
qed simp

lemma resolved_with_not_live: "resolved_with r i res r' \<Longrightarrow> \<not> live r' i"
  by (simp add: live_def resolved_with_view)

lemma chunk_branches:
  obtains (order) "ix \<noteq> nextIndex t \<or> chunkCount t \<le> ix"
      | (bytes) "ix = nextIndex t" "ix < chunkCount t" "\<not> chunk_fits lib t ix d b"
      | (stored) "chunk_fits lib t ix d b" "nextIndex t + 1 \<noteq> chunkCount t"
      | (size) "chunk_fits lib t ix d b" "nextIndex t + 1 = chunkCount t"
          "bytesReceived t + int (length (base64_decode lib d)) \<noteq> totalBytes t"
      | (digest) "chunk_fits lib t ix d b" "nextIndex t + 1 = chunkCount t"
          "bytesReceived t + int (length (base64_decode lib d)) = totalBytes t"
          "toLowerCase (sha256_hex lib (hash t @ base64_decode lib d)) \<noteq> sha256 t"
      | (completed) "chunk_fits lib t ix d b" "chunk_completes lib t d"
proof (cases "ix \<noteq> nextIndex t \<or> chunkCount t \<le> ix")
  case True
  then show ?thesis by (rule order)
next
  case False
  then have ix: "ix = nextIndex t" "ix < chunkCount t"
    by auto
  show ?thesis
  proof (cases "chunk_fits lib t ix d b")
    case False
    with ix show ?thesis by (rule bytes)
  next
    case True
    show ?thesis
    proof (cases "chunk_completes lib t d")
      case True
      with \<open>chunk_fits lib t ix d b\<close> show ?thesis by (rule completed)
    next
      case False
      then show ?thesis
        using True stored size digest
        unfolding chunk_completes_def by (auto simp add: Let_def append_chunk_def)
    qed
  qed
qed


text \<open>
  One chunk for the request id in focus: it is answered with \<open>{ ok: true }\<close> only when its index
  is the expected one, and the expected index then moves by one unless the chunk completed
  the transfer.
\<close>

lemma focus_chunk:
  assumes inv: "transfer_inv r"
  shows "chunk_accepted lib r i (HandleInvokeResultChunk i n ix d b) = []
         \<or> chunk_accepted lib r i (HandleInvokeResultChunk i n ix d b) = [expected_index r i]
           \<and> live r i"
    and "live (fst (handleInvokeResultChunk lib r i n ix d b)) i \<Longrightarrow>
         expected_index (fst (handleInvokeResultChunk lib r i n ix d b)) i =
           expected_index r i
           + int (length (chunk_accepted lib r i (HandleInvokeResultChunk i n ix d b)))"
    and "live (fst (handleInvokeResultChunk lib r i n ix d b)) i \<Longrightarrow> live r i"
proof -
  let ?res = "handleInvokeResultChunk lib r i n ix d b"
  let ?ca = "chunk_accepted lib r i (HandleInvokeResultChunk i n ix d b)"
  have "(?ca = [] \<or> ?ca = [expected_index r i] \<and> live r i)
      \<and> (live (fst ?res) i \<longrightarrow>
           expected_index (fst ?res) i = expected_index r i + int (length ?ca) \<and> live r i)"
  proof (cases "\<exists>t. map_of (invokeTransfers r) i = Some t \<and> t_nodeId t = n")
    case False
    note unknown = chunk_unknown [OF False, where lib = lib and ix = ix and d = d and b = b]
    show ?thesis
    proof (cases "owns r i n")
      case True
      then have "\<not> live (fst ?res) i"
        by (simp add: unknown live_def resolveInvokeError_view)
      then show ?thesis
        by (simp add: unknown)
    next
      case False
      then show ?thesis
        by (simp add: unknown)
    qed
  next
    case True
    then obtain t where t: "map_of (invokeTransfers r) i = Some t" "t_nodeId t = n"
      by blast
    have own: "owns r i n"
      using transfer_invD(4) [OF inv t(1)] t(2) by (auto simp add: owns_iff)
    note outcome = chunk_outcome [OF inv t, where lib = lib and ix = ix and d = d and b = b]
    have expected: "expected_index r i = nextIndex t"
      by (simp add: expected_index_def t)
    show ?thesis
    proof (cases rule: chunk_branches [where ix = ix and t = t and lib = lib and d = d and b = b])
      case order
      then show ?thesis
        using outcome(1) resolved_with_not_live by auto
    next
      case bytes
      then show ?thesis
        using outcome(2) resolved_with_not_live by auto
    next
      case stored
      have "ix = nextIndex t"
        using stored(1) by (simp add: chunk_fits_def)
      then show ?thesis
        using outcome(3) [OF stored] own
        by (simp add: t owns_live expected_index_def AList.update_conv' append_chunk_def)
    next
      case size
      then show ?thesis
        using outcome(4) resolved_with_not_live by auto
    next
      case digest
      then show ?thesis
        using outcome(5) resolved_with_not_live by auto
    next
      case completed
      have "ix = nextIndex t"
        using completed(1) by (simp add: chunk_fits_def)
      then show ?thesis
        using outcome(6) [OF completed] resolved_with_not_live own
        by (auto simp add: expected owns_live)
    qed
  qed
  then show "?ca = [] \<or> ?ca = [expected_index r i] \<and> live r i"
    and "live (fst ?res) i \<Longrightarrow> expected_index (fst ?res) i = expected_index r i + int (length ?ca)"
    and "live (fst ?res) i \<Longrightarrow> live r i"
    by blast+
qed


lemma focus_start:
  assumes "live (fst (startInvokeResultTransfer r j n tb cb cc sh mr mi)) i"
  shows "expected_index (fst (startInvokeResultTransfer r j n tb cb cc sh mr mi)) i
           = expected_index r i \<and> live r i"
proof (cases "i = j")
  case False
  then show ?thesis
    using assms by (simp add: live_def expected_index_def start_view_other)
next
  case True
  show ?thesis
  proof (cases "owns r j n")
    case False
    then show ?thesis
      using assms by (simp add: start_unknown)
  next
    case own: True
    show ?thesis
    proof (cases "map_of (invokeTransfers r) j \<noteq> None \<or> mr < tb \<or> mi < inflightBytes r + tb")
      case True
      then have "\<not> live (fst (startInvokeResultTransfer r j n tb cb cc sh mr mi)) j"
        using own by (simp add: start_rejected(1) live_def resolveInvokeError_view)
      then show ?thesis
        using assms \<open>i = j\<close> by simp
    next
      case False
      then have "map_of (invokeTransfers r) j = None" "tb \<le> mr" "inflightBytes r + tb \<le> mi"
        by auto
      from start_accepted [OF own this] start_threw [OF own this] show ?thesis
        using \<open>i = j\<close> \<open>map_of (invokeTransfers r) j = None\<close> owns_live [OF own]
        by (cases sh) (simp_all add: expected_index_def AList.update_conv')
    qed
  qed
qed

lemma focus_step:
  assumes inv: "transfer_inv r"
  shows "chunk_accepted lib r i op = []
         \<or> chunk_accepted lib r i op = [expected_index r i] \<and> live r i"
    and "live (apply_op lib r op) i \<Longrightarrow>
         expected_index (apply_op lib r op) i
           = expected_index r i + int (length (chunk_accepted lib r i op))"
    and "live (apply_op lib r op) i \<Longrightarrow> live r i \<or> i \<in> set (invoke_ids [op])"
proof -
  have "(chunk_accepted lib r i op = []
         \<or> chunk_accepted lib r i op = [expected_index r i] \<and> live r i)
      \<and> (live (apply_op lib r op) i \<longrightarrow>
           expected_index (apply_op lib r op) i
             = expected_index r i + int (length (chunk_accepted lib r i op))
           \<and> (live r i \<or> i \<in> set (invoke_ids [op])))"
  proof (cases op)
    case (Register cl ip now)
    then show ?thesis
      by (simp add: live_def expected_index_def register_view)
  next
    case (Unregister c)
    then show ?thesis
      using unregister_view [OF inv, where c = c and k = i]
      by (auto simp add: live_def expected_index_def)
  next
    case (Invoke n cmd j sent)
    then show ?thesis
      by (cases "i = j") (simp_all add: live_def expected_index_def invoke_view)
  next
    case (TimerFired j)
    then show ?thesis
      by (auto simp add: live_def expected_index_def invoke_timeout_view split: if_splits)
  next
    case (HandleInvokeResult j n ok' pl pj e)
    then show ?thesis
      by (auto simp add: live_def expected_index_def handleInvokeResult_view split: if_splits)
  next
    case (StartInvokeResultTransfer j n tb cb cc sh mr mi)
    then show ?thesis
      using focus_start [where r = r and j = j and n = n and tb = tb and cb = cb and cc = cc and sh = sh
          and mr = mr and mi = mi and i = i] by simp
  next
    case (HandleInvokeResultChunk j n ix d b)
    show ?thesis
    proof (cases "i = j")
      case True
      then show ?thesis
        using HandleInvokeResultChunk focus_chunk [OF inv, where lib = lib and i = i and n = n and ix = ix and d = d and b = b] by auto
    next
      case False
      then show ?thesis
        using HandleInvokeResultChunk
        by (simp add: live_def expected_index_def chunk_view_other)
    qed
  next
    case (AbortInvokeResultTransfer j n e)
    then show ?thesis
      by (auto simp add: live_def expected_index_def abort_view [OF inv] split: if_splits)
  qed
  then show "chunk_accepted lib r i op = []
         \<or> chunk_accepted lib r i op = [expected_index r i] \<and> live r i"
    and "live (apply_op lib r op) i \<Longrightarrow>
         expected_index (apply_op lib r op) i
           = expected_index r i + int (length (chunk_accepted lib r i op))"
    and "live (apply_op lib r op) i \<Longrightarrow> live r i \<or> i \<in> set (invoke_ids [op])"
    by blast+
qed

lemma invoke_ids_Cons: "invoke_ids (op # ops) = invoke_ids [op] @ invoke_ids ops"
  by (cases op) simp_all

lemma pending_keys_live: "i \<in> fst ` set (pendingInvokes r) \<longleftrightarrow> live r i"
  by (simp add: live_def map_of_eq_None_iff)

lemma transfer_inv_foldl:
  assumes "transfer_inv r" and "distinct (invoke_ids ops)"
    and "\<forall>i \<in> set (invoke_ids ops). \<not> live r i"
  shows "transfer_inv (foldl (apply_op lib) r ops)"
  using assms
proof (induction ops arbitrary: r)
  case Nil
  then show ?case by simp
next
  case (Cons op ops)
  note split = invoke_ids_Cons [of op ops]
  have step: "transfer_inv (apply_op lib r op)"
  proof (rule transfer_inv_apply_op [OF Cons.prems(1)])
    fix n cmd i sent
    assume "op = Invoke n cmd i sent"
    then show "i \<notin> fst ` set (pendingInvokes r)"
      using Cons.prems(3) by (simp add: pending_keys_live)
  qed
  have dist: "distinct (invoke_ids ops)"
    using Cons.prems(2) by (simp add: split)
  have "\<forall>i \<in> set (invoke_ids ops). \<not> live (apply_op lib r op) i"
    using focus_step(3) [OF Cons.prems(1), where lib = lib and op = op] Cons.prems(2,3)
    by (auto simp add: split)
  from Cons.IH [OF step dist this] show ?case
    by simp
qed

lemma transfer_inv_run:
  assumes "distinct (invoke_ids ops)"
  shows "transfer_inv (run lib ops)"
proof -
  have "transfer_inv new_NodeRegistry"
    by (simp add: transfer_inv_def new_NodeRegistry_def)
  then show ?thesis
    unfolding run_def using assms
    by (rule transfer_inv_foldl) (simp add: live_def new_NodeRegistry_def)
qed

text \<open>
  The indices answered with \<open>{ ok: true }\<close> for one request id, from any registry that
  satisfies the invariant, count up from the index its transfer expects; and none is
  accepted for an id that is not pending and that no later \<open>invoke\<close> draws.
\<close>

lemma accepted_indices_from:
  assumes "transfer_inv r" and "distinct (invoke_ids ops)"
    and "\<forall>j \<in> set (invoke_ids ops). \<not> live r j"
  shows "\<exists>k. accepted_indices lib r i ops = map (\<lambda>m. expected_index r i + int m) [0..<k]
             \<and> (\<not> live r i \<and> i \<notin> set (invoke_ids ops) \<longrightarrow> k = 0)"
  using assms
proof (induction ops arbitrary: r)
  case Nil
  show ?case
    by (rule exI [of _ 0]) simp
next
  case (Cons op ops)
  let ?r' = "apply_op lib r op"
  let ?ca = "chunk_accepted lib r i op"
  note split = invoke_ids_Cons [of op ops]
  note step = focus_step [OF Cons.prems(1), where lib = lib and op = op]
  have inv': "transfer_inv ?r'"
  proof (rule transfer_inv_apply_op [OF Cons.prems(1)])
    fix n cmd j sent
    assume "op = Invoke n cmd j sent"
    then show "j \<notin> fst ` set (pendingInvokes r)"
      using Cons.prems(3) by (simp add: pending_keys_live)
  qed
  have dist: "distinct (invoke_ids ops)"
    using Cons.prems(2) by (simp add: split)
  have fresh': "\<forall>j \<in> set (invoke_ids ops). \<not> live ?r' j"
    using step(3) Cons.prems(2,3) by (auto simp add: split)
  obtain k' where k': "accepted_indices lib ?r' i ops
        = map (\<lambda>m. expected_index ?r' i + int m) [0..<k']"
    and quiet: "\<not> live ?r' i \<and> i \<notin> set (invoke_ids ops) \<longrightarrow> k' = 0"
    using Cons.IH [OF inv' dist fresh'] by blast
  have shift: "e # map (\<lambda>m. e + 1 + int m) [0..<k] = map (\<lambda>m. e + int m) [0..<Suc k]" for e k
    by (simp add: upt_rec [of 0] map_Suc_upt [symmetric] del: upt_Suc)
  have no_transfer: "expected_index r i = 0" if "\<not> live r i"
    using not_live_no_transfer [OF Cons.prems(1) that] by (simp add: expected_index_def)
  have no_transfer': "expected_index ?r' i = 0" if "\<not> live ?r' i"
    using not_live_no_transfer [OF inv' that] by (simp add: expected_index_def)
  consider (none) "?ca = []" | (one) "?ca = [expected_index r i]" "live r i"
    using step(1) [where i = i] by blast
  then show ?case
  proof cases
    case none
    show ?thesis
    proof (cases "live ?r' i")
      case True
      then have "expected_index ?r' i = expected_index r i"
        using step(2) [where i = i] none by simp
      moreover have "live r i \<or> i \<in> set (invoke_ids (op # ops))"
        using step(3) [OF True] by (auto simp add: split)
      ultimately show ?thesis
        using k' none by (intro exI [of _ k']) auto
    next
      case False
      show ?thesis
      proof (cases "i \<in> set (invoke_ids ops)")
        case True
        then have "\<not> live r i"
          using Cons.prems(3) by (simp add: split)
        then show ?thesis
          using k' none True no_transfer no_transfer' [OF False]
          by (intro exI [of _ k']) (auto simp add: split)
      next
        case False
        then have "k' = 0"
          using quiet \<open>\<not> live ?r' i\<close> by simp
        then show ?thesis
          using k' none by (intro exI [of _ 0]) simp
      qed
    qed
  next
    case one
    then have notin: "i \<notin> set (invoke_ids (op # ops))"
      using Cons.prems(3) by blast
    show ?thesis
    proof (cases "live ?r' i")
      case True
      then have "expected_index ?r' i = expected_index r i + 1"
        using step(2) [where i = i] one by simp
      then show ?thesis
        using k' one shift [of "expected_index r i" k']
        by (intro exI [of _ "Suc k'"]) (simp del: upt_Suc)
    next
      case False
      then have "k' = 0"
        using quiet notin by (simp add: split)
      then show ?thesis
        using k' one by (intro exI [of _ "Suc 0"]) simp
    qed
  qed
qed

lemma Buffer_concat_exact:
  "int (length (concat cs)) = n \<Longrightarrow> Buffer_concat cs n = concat cs"
  by (auto simp add: Buffer_concat_def)

text \<open>A run that has started a transfer of two chunks and taken the first.\<close>

lemma two_chunk_run:
  "map_of (invokeTransfers (run stub_lib
      [Register buildNodeClient None 0,
       Invoke ''node-1'' ''system.run'' ''req-1'' True,
       StartInvokeResultTransfer ''req-1'' ''node-1'' 2 1 2 (Some ''0F'') 1024 4096,
       HandleInvokeResultChunk ''req-1'' ''node-1'' 0 ''A'' 1])) ''req-1''
   = Some \<lparr>t_nodeId = ''node-1'', totalBytes = 2, chunkBytes = 1, chunkCount = 2,
            nextIndex = 1, bytesReceived = 1, sha256 = ''0f'', hash = [0], chunks = [[0]]\<rparr>"
  "settlements (run stub_lib
      [Register buildNodeClient None 0,
       Invoke ''node-1'' ''system.run'' ''req-1'' True,
       StartInvokeResultTransfer ''req-1'' ''node-1'' 2 1 2 (Some ''0F'') 1024 4096,
       HandleInvokeResultChunk ''req-1'' ''node-1'' 0 ''A'' 1]) = []"
  by (simp_all add: run_eval transfer_eval)

subsection \<open>Chunk order\<close>

text \<open>
  C4. In any run from the empty registry whose \<open>invoke\<close> calls draw pairwise different request
  ids, a chunk for an active transfer of the same node is answered with \<open>{ ok: true }\<close> only if
  its index is \<open>nextIndex\<close> and below \<open>chunkCount\<close>; with any other index it is rejected with
  reason \<open>chunk-out-of-order\<close> and the owning pending invoke is resolved with
  \<open>INVALID_REQUEST\<close> ("chunk out of order"), its transfer and timer gone. So the indices
  accepted for a request id over the whole run are 0, 1, 2, ... in this order.
\<close>

theorem chunks_in_order:
  assumes "distinct (invoke_ids ops)"
  shows "(\<forall>t n ix d b.
            map_of (invokeTransfers (run lib ops)) i = Some t \<and> t_nodeId t = n \<longrightarrow>
              (snd (handleInvokeResultChunk lib (run lib ops) i n ix d b) = TransferOk \<longrightarrow>
                 ix = nextIndex t \<and> ix < chunkCount t)
              \<and> (\<not> (ix = nextIndex t \<and> ix < chunkCount t) \<longrightarrow>
                   snd (handleInvokeResultChunk lib (run lib ops) i n ix d b)
                     = TransferFailed chunk_out_of_order ''chunk out of order''
                   \<and> resolved_with (run lib ops) i
                       (invoke_error ''INVALID_REQUEST'' ''chunk out of order'')
                       (fst (handleInvokeResultChunk lib (run lib ops) i n ix d b))))
       \<and> (\<exists>k. accepted_indices lib new_NodeRegistry i ops = map int [0..<k])"
proof -
  have inv: "transfer_inv (run lib ops)"
    by (rule transfer_inv_run [OF assms])
  have one: "(snd (handleInvokeResultChunk lib (run lib ops) i n ix d b) = TransferOk \<longrightarrow>
                 ix = nextIndex t \<and> ix < chunkCount t)
              \<and> (\<not> (ix = nextIndex t \<and> ix < chunkCount t) \<longrightarrow>
                   snd (handleInvokeResultChunk lib (run lib ops) i n ix d b)
                     = TransferFailed chunk_out_of_order ''chunk out of order''
                   \<and> resolved_with (run lib ops) i
                       (invoke_error ''INVALID_REQUEST'' ''chunk out of order'')
                       (fst (handleInvokeResultChunk lib (run lib ops) i n ix d b)))"
    if t: "map_of (invokeTransfers (run lib ops)) i = Some t" "t_nodeId t = n" for t n ix d b
  proof (cases "ix = nextIndex t \<and> ix < chunkCount t")
    case True
    then show ?thesis by simp
  next
    case False
    then have "ix \<noteq> nextIndex t \<or> chunkCount t \<le> ix"
      by auto
    from chunk_outcome(1) [OF inv t this] show ?thesis
      using False by simp
  qed
  have "transfer_inv new_NodeRegistry"
    by (simp add: transfer_inv_def new_NodeRegistry_def)
  moreover have "\<forall>j \<in> set (invoke_ids ops). \<not> live new_NodeRegistry j"
    by (simp add: live_def new_NodeRegistry_def)
  ultimately obtain k where
    "accepted_indices lib new_NodeRegistry i ops
       = map (\<lambda>m. expected_index new_NodeRegistry i + int m) [0..<k]"
    using accepted_indices_from [OF _ assms] by blast
  moreover have "expected_index new_NodeRegistry i = 0"
    by (simp add: expected_index_def new_NodeRegistry_def)
  ultimately have "\<exists>k. accepted_indices lib new_NodeRegistry i ops = map int [0..<k]"
    by auto
  then show ?thesis
    using one by blast
qed

theorem chunks_in_order_witness:
  "snd (handleInvokeResultChunk stub_lib
          (run stub_lib
            [Register buildNodeClient None 0,
             Invoke ''node-1'' ''system.run'' ''req-1'' True,
             StartInvokeResultTransfer ''req-1'' ''node-1'' 2 1 2 (Some ''0F'') 1024 4096,
             HandleInvokeResultChunk ''req-1'' ''node-1'' 0 ''A'' 1])
          ''req-1'' ''node-1'' 5 ''B'' 1)
     = TransferFailed chunk_out_of_order ''chunk out of order''
   \<and> settlements (fst (handleInvokeResultChunk stub_lib
          (run stub_lib
            [Register buildNodeClient None 0,
             Invoke ''node-1'' ''system.run'' ''req-1'' True,
             StartInvokeResultTransfer ''req-1'' ''node-1'' 2 1 2 (Some ''0F'') 1024 4096,
             HandleInvokeResultChunk ''req-1'' ''node-1'' 0 ''A'' 1])
          ''req-1'' ''node-1'' 5 ''B'' 1))
     = [(''req-1'', Resolved (invoke_error ''INVALID_REQUEST'' ''chunk out of order''))]"
proof -
  let ?ops = "[Register buildNodeClient None 0,
             Invoke ''node-1'' ''system.run'' ''req-1'' True,
             StartInvokeResultTransfer ''req-1'' ''node-1'' 2 1 2 (Some ''0F'') 1024 4096,
             HandleInvokeResultChunk ''req-1'' ''node-1'' 0 ''A'' 1]"
  let ?t = "\<lparr>t_nodeId = ''node-1'', totalBytes = 2, chunkBytes = 1, chunkCount = 2,
            nextIndex = 1, bytesReceived = 1, sha256 = ''0f'', hash = [0], chunks = [[0]]\<rparr>"
  have ids: "distinct (invoke_ids ?ops)"
    by simp
  have t: "map_of (invokeTransfers (run stub_lib ?ops)) ''req-1'' = Some ?t \<and> t_nodeId ?t = ''node-1''"
    by (simp add: two_chunk_run)
  have "\<not> (5 = nextIndex ?t \<and> 5 < chunkCount ?t)"
    by simp
  with chunks_in_order [OF ids, where lib = stub_lib and i = "''req-1''"] t
  have "snd (handleInvokeResultChunk stub_lib (run stub_lib ?ops) ''req-1'' ''node-1'' 5 ''B'' 1)
          = TransferFailed chunk_out_of_order ''chunk out of order''
      \<and> resolved_with (run stub_lib ?ops) ''req-1''
          (invoke_error ''INVALID_REQUEST'' ''chunk out of order'')
          (fst (handleInvokeResultChunk stub_lib (run stub_lib ?ops) ''req-1'' ''node-1'' 5 ''B'' 1))"
    by blast
  then show ?thesis
    by (simp add: resolved_with_def two_chunk_run)
qed

subsection \<open>The frames accepted for a request id\<close>

lemma accepted_frames_append:
  "accepted_frames lib r i (ops @ ops') =
     accepted_frames lib r i ops @ accepted_frames lib (foldl (apply_op lib) r ops) i ops'"
  by (induction ops arbitrary: r) simp_all

lemma run_snoc: "run lib (ops @ [op]) = apply_op lib (run lib ops) op"
  by (simp add: run_def)

lemma accepted_frames_snoc:
  "accepted_frames lib new_NodeRegistry i (ops @ [op]) =
     accepted_frames lib new_NodeRegistry i ops @ frame_accepted lib (run lib ops) i op"
  by (simp add: accepted_frames_append run_def)

lemma invoke_ids_append: "invoke_ids (ops @ ops') = invoke_ids ops @ invoke_ids ops'"
proof (induction ops)
  case (Cons op ops)
  then show ?case by (cases op) simp_all
qed simp

lemma transfer_of_append:
  "append_chunk (transfer_of lib n tb cb cc digest ds) (base64_decode lib d)
     = transfer_of lib n tb cb cc digest (ds @ [d])"
  by (simp add: append_chunk_def transfer_of_def)

lemma chunk_frames_append:
  "chunk_frames k (ds @ [d]) = chunk_frames k ds @ [ChunkFrame (k + int (length ds)) d]"
  by (induction ds arbitrary: k) simp_all


text \<open>
  One operation, seen from a request id that is pending before and after it: either no frame
  for the id is accepted and its transfer is left as it was, or a start frame is accepted and
  creates the transfer, or a chunk with the expected index is accepted and taken.
\<close>

lemma frame_quiet:
  assumes "transfer_inv r" and "\<not> live r i"
  shows "frame_accepted lib r i op = []"
proof (cases op)
  case (StartInvokeResultTransfer j n tb cb cc sh mr mi)
  have "\<not> owns r i n"
    using assms(2) owns_live by blast
  then show ?thesis
    using StartInvokeResultTransfer by (auto simp add: start_unknown split: option.splits)
next
  case (HandleInvokeResultChunk j n ix d b)
  have "\<not> (\<exists>t. map_of (invokeTransfers r) i = Some t \<and> t_nodeId t = n)"
    using not_live_no_transfer [OF assms] by simp
  then show ?thesis
    using HandleInvokeResultChunk by (auto simp add: chunk_unknown)
qed simp_all

lemma frame_start:
  assumes live': "live (fst (startInvokeResultTransfer r i n tb cb cc sh mr mi)) i"
  shows "frame_accepted lib r i (StartInvokeResultTransfer i n tb cb cc sh mr mi) = []
           \<and> map_of (invokeTransfers (fst (startInvokeResultTransfer r i n tb cb cc sh mr mi))) i
               = map_of (invokeTransfers r) i
         \<or> (\<exists>digest. frame_accepted lib r i (StartInvokeResultTransfer i n tb cb cc sh mr mi)
                 = [StartFrame n tb cb cc digest]
               \<and> map_of (invokeTransfers r) i = None
               \<and> map_of (invokeTransfers (fst (startInvokeResultTransfer r i n tb cb cc sh mr mi))) i
                   = Some (transfer_of lib n tb cb cc digest []))"
proof (cases "owns r i n")
  case False
  then show ?thesis
    by (auto simp add: start_unknown split: option.splits)
next
  case own: True
  show ?thesis
  proof (cases "map_of (invokeTransfers r) i \<noteq> None \<or> mr < tb \<or> mi < inflightBytes r + tb")
    case True
    then have "\<not> live (fst (startInvokeResultTransfer r i n tb cb cc sh mr mi)) i"
      using own by (simp add: start_rejected(1) live_def resolveInvokeError_view)
    then show ?thesis
      using live' by simp
  next
    case False
    then have pre: "map_of (invokeTransfers r) i = None" "tb \<le> mr" "inflightBytes r + tb \<le> mi"
      by auto
    show ?thesis
    proof (cases sh)
      case None
      then show ?thesis
        by (simp add: start_threw [OF own pre])
    next
      case (Some digest)
      then show ?thesis
        using pre(1)
        by (simp add: start_accepted [OF own pre] AList.update_conv' transfer_of_def)
    qed
  qed
qed

lemma frame_chunk:
  assumes inv: "transfer_inv r"
    and live': "live (fst (handleInvokeResultChunk lib r i n ix d b)) i"
  shows "frame_accepted lib r i (HandleInvokeResultChunk i n ix d b) = []
           \<and> map_of (invokeTransfers (fst (handleInvokeResultChunk lib r i n ix d b))) i
               = map_of (invokeTransfers r) i
         \<or> (\<exists>t. frame_accepted lib r i (HandleInvokeResultChunk i n ix d b) = [ChunkFrame ix d]
               \<and> map_of (invokeTransfers r) i = Some t \<and> ix = nextIndex t
               \<and> map_of (invokeTransfers (fst (handleInvokeResultChunk lib r i n ix d b))) i
                   = Some (append_chunk t (base64_decode lib d)))"
proof (cases "\<exists>t. map_of (invokeTransfers r) i = Some t \<and> t_nodeId t = n")
  case False
  note unknown = chunk_unknown [OF False, where lib = lib and ix = ix and d = d and b = b]
  show ?thesis
  proof (cases "owns r i n")
    case True
    then have "\<not> live (fst (handleInvokeResultChunk lib r i n ix d b)) i"
      by (simp add: unknown live_def resolveInvokeError_view)
    then show ?thesis
      using live' by simp
  next
    case False
    then show ?thesis
      by (simp add: unknown)
  qed
next
  case True
  then obtain t where t: "map_of (invokeTransfers r) i = Some t" "t_nodeId t = n"
    by blast
  note outcome = chunk_outcome [OF inv t, where lib = lib and ix = ix and d = d and b = b]
  show ?thesis
  proof (cases rule: chunk_branches [where ix = ix and t = t and lib = lib and d = d and b = b])
    case order
    then show ?thesis
      using outcome(1) resolved_with_not_live live' by blast
  next
    case bytes
    then show ?thesis
      using outcome(2) resolved_with_not_live live' by blast
  next
    case stored
    have "ix = nextIndex t"
      using stored(1) by (simp add: chunk_fits_def)
    then show ?thesis
      using outcome(3) [OF stored] by (simp add: t AList.update_conv')
  next
    case size
    then show ?thesis
      using outcome(4) resolved_with_not_live live' by blast
  next
    case digest
    then show ?thesis
      using outcome(5) resolved_with_not_live live' by blast
  next
    case completed
    then show ?thesis
      using outcome(6) resolved_with_not_live live' by blast
  qed
qed

lemma frame_step:
  assumes inv: "transfer_inv r" and live': "live (apply_op lib r op) i"
  shows "frame_accepted lib r i op = []
           \<and> map_of (invokeTransfers (apply_op lib r op)) i = map_of (invokeTransfers r) i
         \<or> (\<exists>n tb cb cc digest.
               frame_accepted lib r i op = [StartFrame n tb cb cc digest]
               \<and> map_of (invokeTransfers r) i = None
               \<and> map_of (invokeTransfers (apply_op lib r op)) i
                   = Some (transfer_of lib n tb cb cc digest []))
         \<or> (\<exists>t ix d.
               frame_accepted lib r i op = [ChunkFrame ix d]
               \<and> map_of (invokeTransfers r) i = Some t \<and> ix = nextIndex t
               \<and> map_of (invokeTransfers (apply_op lib r op)) i
                   = Some (append_chunk t (base64_decode lib d)))"
proof (cases op)
  case (Register cl ip now)
  then show ?thesis
    by (simp add: register_view)
next
  case (Unregister c)
  then show ?thesis
    using unregister_view [OF inv, where c = c and k = i] live'
    by (auto simp add: live_def)
next
  case (Invoke n cmd j sent)
  then show ?thesis
    by (simp add: invoke_view)
next
  case (TimerFired j)
  then show ?thesis
    using live' by (auto simp add: live_def invoke_timeout_view split: if_splits)
next
  case (HandleInvokeResult j n ok' pl pj e)
  then show ?thesis
    using live' by (auto simp add: live_def handleInvokeResult_view split: if_splits)
next
  case (StartInvokeResultTransfer j n tb cb cc sh mr mi)
  show ?thesis
  proof (cases "i = j")
    case True
    then show ?thesis
      using StartInvokeResultTransfer live'
        frame_start [where r = r and i = i and n = n and tb = tb and cb = cb and cc = cc
          and sh = sh and mr = mr and mi = mi and lib = lib]
      by auto
  next
    case False
    then show ?thesis
      using StartInvokeResultTransfer by (auto simp add: start_view_other split: option.splits)
  qed
next
  case (HandleInvokeResultChunk j n ix d b)
  show ?thesis
  proof (cases "i = j")
    case True
    then show ?thesis
      using HandleInvokeResultChunk live'
        frame_chunk [OF inv, where lib = lib and i = i and n = n and ix = ix and d = d and b = b]
      by auto
  next
    case False
    then show ?thesis
      using HandleInvokeResultChunk by (simp add: chunk_view_other)
  qed
next
  case (AbortInvokeResultTransfer j n e)
  then show ?thesis
    using live' by (auto simp add: live_def abort_view [OF inv] split: if_splits)
qed


text \<open>
  The transfer of a request id is what its accepted frames say: in a run from the empty
  registry, an id that no \<open>invoke\<close> has drawn is not pending and no frame was accepted for it;
  for a pending id without a transfer no frame was accepted; and a transfer in the map was
  created by the one start frame accepted for the id and holds the chunks accepted since,
  which came with the indices 0, 1, 2, ...
\<close>

lemma frames_history:
  assumes "distinct (invoke_ids ops)"
  shows "(i \<notin> set (invoke_ids ops) \<longrightarrow>
            \<not> live (run lib ops) i \<and> accepted_frames lib new_NodeRegistry i ops = [])
       \<and> (live (run lib ops) i \<longrightarrow>
            map_of (invokeTransfers (run lib ops)) i = None
              \<and> accepted_frames lib new_NodeRegistry i ops = []
            \<or> (\<exists>n tb cb cc digest ds.
                  accepted_frames lib new_NodeRegistry i ops
                    = StartFrame n tb cb cc digest # chunk_frames 0 ds
                  \<and> map_of (invokeTransfers (run lib ops)) i
                      = Some (transfer_of lib n tb cb cc digest ds)))"
  using assms
proof (induction ops rule: rev_induct)
  case Nil
  show ?case
    by (simp add: run_def live_def new_NodeRegistry_def)
next
  case (snoc op ops)
  let ?r = "run lib ops"
  let ?r' = "apply_op lib ?r op"
  let ?fs = "accepted_frames lib new_NodeRegistry i ops"
  have dist: "distinct (invoke_ids ops)"
    and fresh: "set (invoke_ids [op]) \<inter> set (invoke_ids ops) = {}"
    using snoc.prems by (auto simp add: invoke_ids_append)
  note IH = snoc.IH [OF dist]
  have inv: "transfer_inv ?r"
    by (rule transfer_inv_run [OF dist])
  note origin = focus_step(3) [OF inv, where lib = lib and op = op and i = i]
  have frames: "accepted_frames lib new_NodeRegistry i (ops @ [op])
      = ?fs @ frame_accepted lib ?r i op"
    by (rule accepted_frames_snoc)
  have never: "\<not> live ?r' i \<and> ?fs @ frame_accepted lib ?r i op = []"
    if "i \<notin> set (invoke_ids (ops @ [op]))"
  proof -
    have "i \<notin> set (invoke_ids ops)" "i \<notin> set (invoke_ids [op])"
      using that by (simp_all add: invoke_ids_append)
    then have "\<not> live ?r i" "?fs = []" "\<not> live ?r' i"
      using IH origin by blast+
    then show ?thesis
      using frame_quiet [OF inv, where lib = lib and op = op and i = i] by simp
  qed
  have alive: "map_of (invokeTransfers ?r') i = None \<and> ?fs @ frame_accepted lib ?r i op = []
      \<or> (\<exists>n tb cb cc digest ds.
            ?fs @ frame_accepted lib ?r i op = StartFrame n tb cb cc digest # chunk_frames 0 ds
            \<and> map_of (invokeTransfers ?r') i = Some (transfer_of lib n tb cb cc digest ds))"
    if live': "live ?r' i"
  proof (cases "live ?r i")
    case False
    then have drawn: "i \<in> set (invoke_ids [op])"
      using origin [OF live'] by simp
    then have "i \<notin> set (invoke_ids ops)"
      using fresh by blast
    then have "?fs = []"
      using IH by blast
    moreover have "frame_accepted lib ?r i op = []"
      by (rule frame_quiet [OF inv False])
    moreover have "map_of (invokeTransfers ?r') i = None"
    proof -
      obtain n cmd sent where "op = Invoke n cmd i sent"
        using drawn by (cases op) simp_all
      then show ?thesis
        using not_live_no_transfer [OF inv False] by (simp add: invoke_view)
    qed
    ultimately show ?thesis
      by simp
  next
    case True
    note before = IH [THEN conjunct2, rule_format, OF True]
    from frame_step [OF inv live'] consider
      (same) "frame_accepted lib ?r i op = []"
        "map_of (invokeTransfers ?r') i = map_of (invokeTransfers ?r) i"
      | (start) n tb cb cc digest where
        "frame_accepted lib ?r i op = [StartFrame n tb cb cc digest]"
        "map_of (invokeTransfers ?r) i = None"
        "map_of (invokeTransfers ?r') i = Some (transfer_of lib n tb cb cc digest [])"
      | (chunk) t ix d where
        "frame_accepted lib ?r i op = [ChunkFrame ix d]"
        "map_of (invokeTransfers ?r) i = Some t" "ix = nextIndex t"
        "map_of (invokeTransfers ?r') i = Some (append_chunk t (base64_decode lib d))"
      by blast
    then show ?thesis
    proof cases
      case same
      then show ?thesis
        using before by simp
    next
      case start
      then have "?fs = []"
        using before by auto
      then have "?fs @ frame_accepted lib ?r i op
          = StartFrame n tb cb cc digest # chunk_frames 0 []"
        using start(1) by simp
      then show ?thesis
        using start(3) by blast
    next
      case chunk
      then obtain n tb cb cc digest ds where
        fs: "?fs = StartFrame n tb cb cc digest # chunk_frames 0 ds"
        and t: "t = transfer_of lib n tb cb cc digest ds"
        using before by auto
      have "ix = int (length ds)"
        using chunk(3) t by (simp add: transfer_of_def)
      then have "?fs @ frame_accepted lib ?r i op
          = StartFrame n tb cb cc digest # chunk_frames 0 (ds @ [d])"
        using fs chunk(1) by (simp add: chunk_frames_append)
      moreover have "map_of (invokeTransfers ?r') i
          = Some (transfer_of lib n tb cb cc digest (ds @ [d]))"
        using chunk(4) t by (simp add: transfer_of_append)
      ultimately show ?thesis
        by blast
    qed
  qed
  show ?case
    unfolding run_snoc frames using never alive by blast
qed

subsection \<open>Completion of a transfer\<close>

text \<open>
  C5. In any run from the empty registry whose \<open>invoke\<close> calls draw pairwise different request
  ids, an active transfer was created by the one start frame accepted for its request id and
  holds the chunks accepted for the id since, which came with the indices 0, 1, 2, ...: their
  decoded bytes, in this order, are its chunk list and the input of its hash, their number is
  \<open>nextIndex\<close>, their total length \<open>bytesReceived\<close>, and the stored digest is the lowercased
  \<open>sha256\<close> of that start frame. A chunk for the transfer from its node resolves the owning
  invoke with \<open>ok = true\<close> exactly when it passes the checks of a chunk and, with it,
  \<open>nextIndex\<close> is \<open>chunkCount\<close>, \<open>bytesReceived\<close> is \<open>totalBytes\<close> and the lowercased SHA-256 of
  the bytes received is the stored digest. Then the chunk is answered with \<open>{ ok: true }\<close>, the
  chunks accepted over the whole run are \<open>chunkCount\<close> chunks with the indices
  0 to \<open>chunkCount - 1\<close>, \<open>totalBytes\<close> bytes in all, and the invoke is resolved through
  \<open>handleInvokeResult\<close> with \<open>payloadJSON\<close> the UTF-8 decoding of their bytes concatenated in
  index order. When the last chunk fails the size or the digest check the invoke is resolved
  with \<open>INVALID_REQUEST\<close> instead. The digests are compared in lower case.
\<close>

theorem transfer_completion:
  assumes "distinct (invoke_ids ops)"
  shows "(\<forall>t n ix d b.
            map_of (invokeTransfers (run lib ops)) i = Some t \<and> t_nodeId t = n \<longrightarrow>
              (\<exists>tb cb cc digest ds.
                  accepted_frames lib new_NodeRegistry i ops
                    = StartFrame n tb cb cc digest # chunk_frames 0 ds
                  \<and> t = transfer_of lib n tb cb cc digest ds
                  \<and> (chunk_fits lib t ix d b \<and> chunk_completes lib t d \<longrightarrow>
                       accepted_frames lib new_NodeRegistry i
                           (ops @ [HandleInvokeResultChunk i n ix d b])
                         = StartFrame n tb cb cc digest # chunk_frames 0 (ds @ [d])
                       \<and> int (length (ds @ [d])) = cc
                       \<and> int (length (concat (map (base64_decode lib) (ds @ [d])))) = tb
                       \<and> toLowerCase
                             (sha256_hex lib (concat (map (base64_decode lib) (ds @ [d]))))
                           = toLowerCase digest
                       \<and> resolved_with (run lib ops) i
                           \<lparr>ok = True, payload = None,
                            payloadJSON =
                              Some (utf8_decode lib
                                      (concat (map (base64_decode lib) (ds @ [d])))),
                            error = None\<rparr>
                           (fst (handleInvokeResultChunk lib (run lib ops) i n ix d b))))
              \<and> ((\<exists>v. settlements (fst (handleInvokeResultChunk lib (run lib ops) i n ix d b))
                      = settlements (run lib ops) @ [(i, Resolved v)] \<and> ok v)
                 \<longleftrightarrow> chunk_fits lib t ix d b \<and> chunk_completes lib t d)
              \<and> (chunk_fits lib t ix d b \<and> chunk_completes lib t d \<longrightarrow>
                   snd (handleInvokeResultChunk lib (run lib ops) i n ix d b) = TransferOk
                   \<and> resolved_with (run lib ops) i
                       \<lparr>ok = True, payload = None,
                        payloadJSON =
                          Some (utf8_decode lib (concat (chunks t) @ base64_decode lib d)),
                        error = None\<rparr>
                       (fst (handleInvokeResultChunk lib (run lib ops) i n ix d b))
                   \<and> int (length (concat (chunks t) @ base64_decode lib d)) = totalBytes t
                   \<and> int (length (chunks t)) + 1 = chunkCount t
                   \<and> toLowerCase (sha256_hex lib (concat (chunks t) @ base64_decode lib d))
                       = sha256 t)
              \<and> (chunk_fits lib t ix d b \<and> nextIndex t + 1 = chunkCount t
                   \<and> \<not> chunk_completes lib t d \<longrightarrow>
                   snd (handleInvokeResultChunk lib (run lib ops) i n ix d b) \<noteq> TransferOk
                   \<and> (\<exists>m. resolved_with (run lib ops) i (invoke_error ''INVALID_REQUEST'' m)
                            (fst (handleInvokeResultChunk lib (run lib ops) i n ix d b)))))
       \<and> (\<forall>r n tb cb cc sh mr mi.
            snd (startInvokeResultTransfer r i n tb cb cc sh mr mi) = Inr TransferOk \<longrightarrow>
              (\<exists>digest. sh = Some digest
                 \<and> map_of (invokeTransfers
                       (fst (startInvokeResultTransfer r i n tb cb cc sh mr mi))) i
                     = Some \<lparr>t_nodeId = n, totalBytes = tb, chunkBytes = cb, chunkCount = cc,
                             nextIndex = 0, bytesReceived = 0, sha256 = toLowerCase digest,
                             hash = [], chunks = []\<rparr>))"
proof -
  let ?r = "run lib ops"
  have inv: "transfer_inv ?r"
    by (rule transfer_inv_run [OF assms])
  have history: "\<exists>tb cb cc digest ds.
                  accepted_frames lib new_NodeRegistry i ops
                    = StartFrame n tb cb cc digest # chunk_frames 0 ds
                  \<and> t = transfer_of lib n tb cb cc digest ds
                  \<and> (chunk_fits lib t ix d b \<and> chunk_completes lib t d \<longrightarrow>
                       accepted_frames lib new_NodeRegistry i
                           (ops @ [HandleInvokeResultChunk i n ix d b])
                         = StartFrame n tb cb cc digest # chunk_frames 0 (ds @ [d])
                       \<and> int (length (ds @ [d])) = cc
                       \<and> int (length (concat (map (base64_decode lib) (ds @ [d])))) = tb
                       \<and> toLowerCase
                             (sha256_hex lib (concat (map (base64_decode lib) (ds @ [d]))))
                           = toLowerCase digest
                       \<and> resolved_with ?r i
                           \<lparr>ok = True, payload = None,
                            payloadJSON =
                              Some (utf8_decode lib
                                      (concat (map (base64_decode lib) (ds @ [d])))),
                            error = None\<rparr>
                           (fst (handleInvokeResultChunk lib ?r i n ix d b)))"
    if t: "map_of (invokeTransfers ?r) i = Some t" "t_nodeId t = n" for t n ix d b
  proof -
    have "live ?r i"
      using transfer_invD(4) [OF inv t(1)] by (auto simp add: live_def)
    then obtain n' tb cb cc digest ds where
      fs: "accepted_frames lib new_NodeRegistry i ops
             = StartFrame n' tb cb cc digest # chunk_frames 0 ds"
      and t_of: "t = transfer_of lib n' tb cb cc digest ds"
      using frames_history [OF assms, where lib = lib and i = i] t(1) by auto
    have n': "n' = n"
      using t(2) t_of by (simp add: transfer_of_def)
    have "accepted_frames lib new_NodeRegistry i (ops @ [HandleInvokeResultChunk i n ix d b])
            = StartFrame n tb cb cc digest # chunk_frames 0 (ds @ [d])
          \<and> int (length (ds @ [d])) = cc
          \<and> int (length (concat (map (base64_decode lib) (ds @ [d])))) = tb
          \<and> toLowerCase (sha256_hex lib (concat (map (base64_decode lib) (ds @ [d]))))
              = toLowerCase digest
          \<and> resolved_with ?r i
              \<lparr>ok = True, payload = None,
               payloadJSON =
                 Some (utf8_decode lib (concat (map (base64_decode lib) (ds @ [d])))),
               error = None\<rparr>
              (fst (handleInvokeResultChunk lib ?r i n ix d b))"
      if final: "chunk_fits lib t ix d b" "chunk_completes lib t d"
    proof -
      note outcome = chunk_outcome(6) [OF inv t final]
      have ix: "ix = int (length ds)"
        using final(1) t_of by (simp add: chunk_fits_def transfer_of_def)
      have count: "int (length (ds @ [d])) = cc"
        and size: "int (length (concat (map (base64_decode lib) (ds @ [d])))) = tb"
        and digest: "toLowerCase (sha256_hex lib (concat (map (base64_decode lib) (ds @ [d]))))
              = toLowerCase digest"
        using final(2) t_of by (simp_all add: chunk_completes_def transfer_of_def)
      have "frame_accepted lib ?r i (HandleInvokeResultChunk i n ix d b) = [ChunkFrame ix d]"
        using outcome by simp
      then have frames: "accepted_frames lib new_NodeRegistry i
            (ops @ [HandleInvokeResultChunk i n ix d b])
          = StartFrame n tb cb cc digest # chunk_frames 0 (ds @ [d])"
        using fs ix n' by (simp add: accepted_frames_snoc chunk_frames_append)
      have "Buffer_concat (chunks t @ [base64_decode lib d]) (totalBytes t)
              = concat (map (base64_decode lib) (ds @ [d]))"
        using size t_of by (simp add: Buffer_concat_exact transfer_of_def)
      then show ?thesis
        using outcome frames count size digest by simp
    qed
    then show ?thesis
      using fs t_of n' by blast
  qed
  have chunk: "((\<exists>v. settlements (fst (handleInvokeResultChunk lib ?r i n ix d b))
                      = settlements ?r @ [(i, Resolved v)] \<and> ok v)
                 \<longleftrightarrow> chunk_fits lib t ix d b \<and> chunk_completes lib t d)
              \<and> (chunk_fits lib t ix d b \<and> chunk_completes lib t d \<longrightarrow>
                   snd (handleInvokeResultChunk lib ?r i n ix d b) = TransferOk
                   \<and> resolved_with ?r i
                       \<lparr>ok = True, payload = None,
                        payloadJSON =
                          Some (utf8_decode lib (concat (chunks t) @ base64_decode lib d)),
                        error = None\<rparr>
                       (fst (handleInvokeResultChunk lib ?r i n ix d b))
                   \<and> int (length (concat (chunks t) @ base64_decode lib d)) = totalBytes t
                   \<and> int (length (chunks t)) + 1 = chunkCount t
                   \<and> toLowerCase (sha256_hex lib (concat (chunks t) @ base64_decode lib d))
                       = sha256 t)
              \<and> (chunk_fits lib t ix d b \<and> nextIndex t + 1 = chunkCount t
                   \<and> \<not> chunk_completes lib t d \<longrightarrow>
                   snd (handleInvokeResultChunk lib ?r i n ix d b) \<noteq> TransferOk
                   \<and> (\<exists>m. resolved_with ?r i (invoke_error ''INVALID_REQUEST'' m)
                            (fst (handleInvokeResultChunk lib ?r i n ix d b))))"
    if t: "map_of (invokeTransfers ?r) i = Some t" "t_nodeId t = n" for t n ix d b
  proof -
    let ?res = "handleInvokeResultChunk lib ?r i n ix d b"
    note outcome = chunk_outcome [OF inv t, where lib = lib and ix = ix and d = d and b = b]
    note fed = transfer_invD(5-7) [OF inv t(1)]
    have failed: "\<not> (\<exists>v. settlements (fst ?res) = settlements ?r @ [(i, Resolved v)] \<and> ok v)"
      if "resolved_with ?r i (invoke_error ''INVALID_REQUEST'' m) (fst ?res)" for m
      using that by (auto simp add: resolved_with_def invoke_error_def)
    show ?thesis
    proof (cases rule: chunk_branches [where ix = ix and t = t and lib = lib and d = d and b = b])
      case order
      then have "\<not> chunk_fits lib t ix d b"
        by (auto simp add: chunk_fits_def)
      then show ?thesis
        using outcome(1) [OF order] failed by blast
    next
      case bytes
      then show ?thesis
        using outcome(2) failed by blast
    next
      case stored
      then have "\<not> chunk_completes lib t d"
        by (simp add: chunk_completes_def Let_def append_chunk_def)
      then show ?thesis
        using outcome(3) [OF stored] stored(2) by simp
    next
      case size
      then have "\<not> chunk_completes lib t d"
        by (simp add: chunk_completes_def Let_def append_chunk_def)
      then show ?thesis
        using outcome(4) [OF size] failed by auto
    next
      case digest
      then have "\<not> chunk_completes lib t d"
        by (simp add: chunk_completes_def Let_def append_chunk_def)
      then show ?thesis
        using outcome(5) [OF digest] failed by auto
    next
      case completed
      have size: "int (length (concat (chunks t) @ base64_decode lib d)) = totalBytes t"
        and count: "int (length (chunks t)) + 1 = chunkCount t"
        and digest: "toLowerCase (sha256_hex lib (concat (chunks t) @ base64_decode lib d))
                       = sha256 t"
        using completed(2) fed
        by (simp_all add: chunk_completes_def Let_def append_chunk_def)
      have "Buffer_concat (chunks t @ [base64_decode lib d]) (totalBytes t)
              = concat (chunks t) @ base64_decode lib d"
        using size by (simp add: Buffer_concat_exact)
      then show ?thesis
        using outcome(6) [OF completed] completed size count digest
        by (auto simp add: resolved_with_def)
    qed
  qed
  have start: "\<exists>digest. sh = Some digest
                 \<and> map_of (invokeTransfers
                       (fst (startInvokeResultTransfer r i n tb cb cc sh mr mi))) i
                     = Some \<lparr>t_nodeId = n, totalBytes = tb, chunkBytes = cb, chunkCount = cc,
                             nextIndex = 0, bytesReceived = 0, sha256 = toLowerCase digest,
                             hash = [], chunks = []\<rparr>"
    if "snd (startInvokeResultTransfer r i n tb cb cc sh mr mi) = Inr TransferOk"
    for r n tb cb cc sh mr mi
    using that
    by (auto simp add: startInvokeResultTransfer_def AList.update_conv'
        split: if_splits option.splits)
  have frames: "\<forall>t n ix d b.
      map_of (invokeTransfers ?r) i = Some t \<and> t_nodeId t = n \<longrightarrow>
        (\<exists>tb cb cc digest ds.
            accepted_frames lib new_NodeRegistry i ops
              = StartFrame n tb cb cc digest # chunk_frames 0 ds
            \<and> t = transfer_of lib n tb cb cc digest ds
            \<and> (chunk_fits lib t ix d b \<and> chunk_completes lib t d \<longrightarrow>
                 accepted_frames lib new_NodeRegistry i
                     (ops @ [HandleInvokeResultChunk i n ix d b])
                   = StartFrame n tb cb cc digest # chunk_frames 0 (ds @ [d])
                 \<and> int (length (ds @ [d])) = cc
                 \<and> int (length (concat (map (base64_decode lib) (ds @ [d])))) = tb
                 \<and> toLowerCase
                       (sha256_hex lib (concat (map (base64_decode lib) (ds @ [d]))))
                     = toLowerCase digest
                 \<and> resolved_with ?r i
                     \<lparr>ok = True, payload = None,
                      payloadJSON =
                        Some (utf8_decode lib
                                (concat (map (base64_decode lib) (ds @ [d])))),
                      error = None\<rparr>
                     (fst (handleInvokeResultChunk lib ?r i n ix d b))))
        \<and> ((\<exists>v. settlements (fst (handleInvokeResultChunk lib ?r i n ix d b))
                = settlements ?r @ [(i, Resolved v)] \<and> ok v)
           \<longleftrightarrow> chunk_fits lib t ix d b \<and> chunk_completes lib t d)
        \<and> (chunk_fits lib t ix d b \<and> chunk_completes lib t d \<longrightarrow>
             snd (handleInvokeResultChunk lib ?r i n ix d b) = TransferOk
             \<and> resolved_with ?r i
                 \<lparr>ok = True, payload = None,
                  payloadJSON =
                    Some (utf8_decode lib (concat (chunks t) @ base64_decode lib d)),
                  error = None\<rparr>
                 (fst (handleInvokeResultChunk lib ?r i n ix d b))
             \<and> int (length (concat (chunks t) @ base64_decode lib d)) = totalBytes t
             \<and> int (length (chunks t)) + 1 = chunkCount t
             \<and> toLowerCase (sha256_hex lib (concat (chunks t) @ base64_decode lib d))
                 = sha256 t)
        \<and> (chunk_fits lib t ix d b \<and> nextIndex t + 1 = chunkCount t
             \<and> \<not> chunk_completes lib t d \<longrightarrow>
             snd (handleInvokeResultChunk lib ?r i n ix d b) \<noteq> TransferOk
             \<and> (\<exists>m. resolved_with ?r i (invoke_error ''INVALID_REQUEST'' m)
                      (fst (handleInvokeResultChunk lib ?r i n ix d b))))"
  proof (intro allI impI)
    fix t n ix d b
    assume "map_of (invokeTransfers ?r) i = Some t \<and> t_nodeId t = n"
    then have t: "map_of (invokeTransfers ?r) i = Some t" "t_nodeId t = n"
      by simp_all
    from history [OF t, of ix d b] chunk [OF t, of ix d b]
    show "(\<exists>tb cb cc digest ds.
            accepted_frames lib new_NodeRegistry i ops
              = StartFrame n tb cb cc digest # chunk_frames 0 ds
            \<and> t = transfer_of lib n tb cb cc digest ds
            \<and> (chunk_fits lib t ix d b \<and> chunk_completes lib t d \<longrightarrow>
                 accepted_frames lib new_NodeRegistry i
                     (ops @ [HandleInvokeResultChunk i n ix d b])
                   = StartFrame n tb cb cc digest # chunk_frames 0 (ds @ [d])
                 \<and> int (length (ds @ [d])) = cc
                 \<and> int (length (concat (map (base64_decode lib) (ds @ [d])))) = tb
                 \<and> toLowerCase
                       (sha256_hex lib (concat (map (base64_decode lib) (ds @ [d]))))
                     = toLowerCase digest
                 \<and> resolved_with ?r i
                     \<lparr>ok = True, payload = None,
                      payloadJSON =
                        Some (utf8_decode lib
                                (concat (map (base64_decode lib) (ds @ [d])))),
                      error = None\<rparr>
                     (fst (handleInvokeResultChunk lib ?r i n ix d b))))
        \<and> ((\<exists>v. settlements (fst (handleInvokeResultChunk lib ?r i n ix d b))
                = settlements ?r @ [(i, Resolved v)] \<and> ok v)
           \<longleftrightarrow> chunk_fits lib t ix d b \<and> chunk_completes lib t d)
        \<and> (chunk_fits lib t ix d b \<and> chunk_completes lib t d \<longrightarrow>
             snd (handleInvokeResultChunk lib ?r i n ix d b) = TransferOk
             \<and> resolved_with ?r i
                 \<lparr>ok = True, payload = None,
                  payloadJSON =
                    Some (utf8_decode lib (concat (chunks t) @ base64_decode lib d)),
                  error = None\<rparr>
                 (fst (handleInvokeResultChunk lib ?r i n ix d b))
             \<and> int (length (concat (chunks t) @ base64_decode lib d)) = totalBytes t
             \<and> int (length (chunks t)) + 1 = chunkCount t
             \<and> toLowerCase (sha256_hex lib (concat (chunks t) @ base64_decode lib d))
                 = sha256 t)
        \<and> (chunk_fits lib t ix d b \<and> nextIndex t + 1 = chunkCount t
             \<and> \<not> chunk_completes lib t d \<longrightarrow>
             snd (handleInvokeResultChunk lib ?r i n ix d b) \<noteq> TransferOk
             \<and> (\<exists>m. resolved_with ?r i (invoke_error ''INVALID_REQUEST'' m)
                      (fst (handleInvokeResultChunk lib ?r i n ix d b))))"
      by (rule conjI)
  qed
  show ?thesis
    by (rule conjI [OF frames]) (intro allI impI, rule start)
qed

theorem transfer_completion_witness:
  "snd (handleInvokeResultChunk stub_lib
          (run stub_lib
            [Register buildNodeClient None 0,
             Invoke ''node-1'' ''system.run'' ''req-1'' True,
             StartInvokeResultTransfer ''req-1'' ''node-1'' 2 1 2 (Some ''0F'') 1024 4096,
             HandleInvokeResultChunk ''req-1'' ''node-1'' 0 ''A'' 1])
          ''req-1'' ''node-1'' 1 ''B'' 1)
     = TransferOk
   \<and> settlements (fst (handleInvokeResultChunk stub_lib
          (run stub_lib
            [Register buildNodeClient None 0,
             Invoke ''node-1'' ''system.run'' ''req-1'' True,
             StartInvokeResultTransfer ''req-1'' ''node-1'' 2 1 2 (Some ''0F'') 1024 4096,
             HandleInvokeResultChunk ''req-1'' ''node-1'' 0 ''A'' 1])
          ''req-1'' ''node-1'' 1 ''B'' 1))
     = [(''req-1'', Resolved \<lparr>ok = True, payload = None, payloadJSON = Some ''{}'',
                             error = None\<rparr>)]
   \<and> accepted_frames stub_lib new_NodeRegistry ''req-1''
        [Register buildNodeClient None 0,
         Invoke ''node-1'' ''system.run'' ''req-1'' True,
         StartInvokeResultTransfer ''req-1'' ''node-1'' 2 1 2 (Some ''0F'') 1024 4096,
         HandleInvokeResultChunk ''req-1'' ''node-1'' 0 ''A'' 1,
         HandleInvokeResultChunk ''req-1'' ''node-1'' 1 ''B'' 1]
     = [StartFrame ''node-1'' 2 1 2 ''0F'', ChunkFrame 0 ''A'', ChunkFrame 1 ''B'']
   \<and> snd (handleInvokeResultChunk stub_lib
          (run stub_lib
            [Register buildNodeClient None 0,
             Invoke ''node-1'' ''system.run'' ''req-1'' True,
             StartInvokeResultTransfer ''req-1'' ''node-1'' 2 1 2 (Some ''0F'') 1024 4096,
             HandleInvokeResultChunk ''req-1'' ''node-1'' 0 ''A'' 1])
          ''req-1'' ''node-1'' 1 ''A'' 1)
     \<noteq> TransferOk"
proof -
  let ?ops = "[Register buildNodeClient None 0,
             Invoke ''node-1'' ''system.run'' ''req-1'' True,
             StartInvokeResultTransfer ''req-1'' ''node-1'' 2 1 2 (Some ''0F'') 1024 4096,
             HandleInvokeResultChunk ''req-1'' ''node-1'' 0 ''A'' 1]"
  let ?t = "\<lparr>t_nodeId = ''node-1'', totalBytes = 2, chunkBytes = 1, chunkCount = 2,
            nextIndex = 1, bytesReceived = 1, sha256 = ''0f'', hash = [0], chunks = [[0]]\<rparr>"
  have ids: "distinct (invoke_ids ?ops)"
    by simp
  have t: "map_of (invokeTransfers (run stub_lib ?ops)) ''req-1'' = Some ?t \<and> t_nodeId ?t = ''node-1''"
    by (simp add: two_chunk_run)
  have fits: "chunk_fits stub_lib ?t 1 ''B'' 1 \<and> chunk_completes stub_lib ?t ''B''"
    by (simp add: chunk_fits_def chunk_completes_def stub_lib_def toLowerCase_def lower_char_def)
  have decoded: "base64_decode stub_lib ''B'' = [1]" "utf8_decode stub_lib [0, 1] = ''{}''"
    by (simp_all add: stub_lib_def)
  note main = transfer_completion [OF ids, where lib = stub_lib and i = "''req-1''"]
  note block = main [THEN conjunct1, rule_format, OF t, where ix = 1 and d = "''B''" and b = 1]
  have wrong: "chunk_fits stub_lib ?t 1 ''A'' 1 \<and> nextIndex ?t + 1 = chunkCount ?t
      \<and> \<not> chunk_completes stub_lib ?t ''A''"
    by (simp add: chunk_fits_def chunk_completes_def stub_lib_def toLowerCase_def lower_char_def)
  note failed = main [THEN conjunct1, rule_format, OF t, where ix = 1 and d = "''A''" and b = 1,
      THEN conjunct2, THEN conjunct2, THEN conjunct2, THEN mp, OF wrong, THEN conjunct1]
  note history = block [THEN conjunct1]
  note completed = block [THEN conjunct2, THEN conjunct2, THEN conjunct1, THEN mp, OF fits]
  obtain tb cb cc digest ds where
    before: "accepted_frames stub_lib new_NodeRegistry ''req-1'' ?ops
               = StartFrame ''node-1'' tb cb cc digest # chunk_frames 0 ds"
    and after: "accepted_frames stub_lib new_NodeRegistry ''req-1''
                  (?ops @ [HandleInvokeResultChunk ''req-1'' ''node-1'' 1 ''B'' 1])
               = StartFrame ''node-1'' tb cb cc digest # chunk_frames 0 (ds @ [''B''])"
    using history fits by blast
  have "accepted_frames stub_lib new_NodeRegistry ''req-1'' ?ops
          = [StartFrame ''node-1'' 2 1 2 ''0F'', ChunkFrame 0 ''A'']"
    by (simp add: run_eval transfer_eval)
  then have start: "tb = 2 \<and> cb = 1 \<and> cc = 2 \<and> digest = ''0F''"
    and chunk: "chunk_frames 0 ds = [ChunkFrame 0 ''A'']"
    using before by simp_all
  have "ds = [''A'']"
  proof (cases ds)
    case Nil
    then show ?thesis
      using chunk by simp
  next
    case (Cons e es)
    then show ?thesis
      using chunk by (cases es) simp_all
  qed
  then have "StartFrame ''node-1'' tb cb cc digest # chunk_frames 0 (ds @ [''B''])
      = [StartFrame ''node-1'' 2 1 2 ''0F'', ChunkFrame 0 ''A'', ChunkFrame 1 ''B'']"
    using start by simp
  then have frames: "accepted_frames stub_lib new_NodeRegistry ''req-1''
        (?ops @ [HandleInvokeResultChunk ''req-1'' ''node-1'' 1 ''B'' 1])
      = [StartFrame ''node-1'' 2 1 2 ''0F'', ChunkFrame 0 ''A'', ChunkFrame 1 ''B'']"
    unfolding after .
  have "snd (handleInvokeResultChunk stub_lib (run stub_lib ?ops) ''req-1'' ''node-1'' 1 ''B'' 1)
          = TransferOk
      \<and> resolved_with (run stub_lib ?ops) ''req-1''
          \<lparr>ok = True, payload = None,
           payloadJSON = Some (utf8_decode stub_lib
             (concat (chunks ?t) @ base64_decode stub_lib ''B'')),
           error = None\<rparr>
          (fst (handleInvokeResultChunk stub_lib (run stub_lib ?ops) ''req-1'' ''node-1'' 1 ''B'' 1))"
    using completed by simp
  then have "snd (handleInvokeResultChunk stub_lib (run stub_lib ?ops) ''req-1'' ''node-1'' 1 ''B'' 1)
          = TransferOk
      \<and> settlements (fst (handleInvokeResultChunk stub_lib (run stub_lib ?ops)
            ''req-1'' ''node-1'' 1 ''B'' 1))
          = [(''req-1'', Resolved \<lparr>ok = True, payload = None, payloadJSON = Some ''{}'',
                             error = None\<rparr>)]"
    by (simp add: resolved_with_def two_chunk_run decoded)
  then show ?thesis
    using frames failed by (simp del: accepted_frames.simps)
qed

subsection \<open>A transfer of zero chunks\<close>

lemma invoke_live:
  "live r i \<Longrightarrow> live (fst (invoke r n cmd j sent)) i"
  by (auto simp add: invoke_def live_def AList.update_conv' split: option.splits)

lemma live_other_id:
  assumes "live r i"
  shows "j \<noteq> i \<Longrightarrow> live (invoke_timeout r j) i"
    and "j \<noteq> i \<Longrightarrow> live (fst (handleInvokeResult r j n ok' pl pj e)) i"
    and "j \<noteq> i \<Longrightarrow> live (fst (startInvokeResultTransfer r j n tb cb cc sh mr mi)) i"
    and "j \<noteq> i \<Longrightarrow> live (fst (handleInvokeResultChunk lib r j n ix d b)) i"
    and "j \<noteq> i \<Longrightarrow> live (fst (abortInvokeResultTransfer r j n e')) i"
  using assms
  by (simp_all add: live_def invoke_timeout_view handleInvokeResult_view start_view_other
      chunk_view_other abort_view_other)

lemma zero_chunk_run:
  "owns (run stub_lib
      [Register buildNodeClient None 0, Invoke ''node-1'' ''system.run'' ''req-1'' True])
     ''req-1'' ''node-1''"
  "map_of (invokeTransfers (run stub_lib
      [Register buildNodeClient None 0, Invoke ''node-1'' ''system.run'' ''req-1'' True]))
     ''req-1'' = None"
  "inflightBytes (run stub_lib
      [Register buildNodeClient None 0, Invoke ''node-1'' ''system.run'' ''req-1'' True]) = 0"
  "map_of (invokeTransfers (run stub_lib
      [Register buildNodeClient None 0,
       Invoke ''node-1'' ''system.run'' ''req-1'' True,
       StartInvokeResultTransfer ''req-1'' ''node-1'' 22 4 0 (Some ''ab'') 1024 4096])) ''req-1''
   = Some \<lparr>t_nodeId = ''node-1'', totalBytes = 22, chunkBytes = 4, chunkCount = 0,
            nextIndex = 0, bytesReceived = 0, sha256 = ''ab'', hash = [], chunks = []\<rparr>"
  "settlements (run stub_lib
      [Register buildNodeClient None 0,
       Invoke ''node-1'' ''system.run'' ''req-1'' True,
       StartInvokeResultTransfer ''req-1'' ''node-1'' 22 4 0 (Some ''ab'') 1024 4096]) = []"
  by (simp_all add: run_eval transfer_eval owns_def)

text \<open>
  C10, as the code has it. \<open>startInvokeResultTransfer\<close> accepts every start frame of the owning
  node that carries a \<open>sha256\<close> string, has no transfer yet and passes the two byte limits,
  whatever \<open>chunkCount\<close>, \<open>chunkBytes\<close> and \<open>totalBytes\<close> are, and counts its \<open>totalBytes\<close> in
  flight. In any run from the
  empty registry whose \<open>invoke\<close> calls draw pairwise different request ids, a transfer with
  \<open>chunkCount = 0\<close> never completes: every chunk of its node is rejected as
  \<open>chunk-out-of-order\<close>, which resolves the owning invoke with \<open>INVALID_REQUEST\<close>, and a chunk
  of another node is answered \<open>unknown-invoke-id\<close> and changes nothing. The owning invoke
  stops being pending only through a chunk or a start frame for its id (both rejections), a
  direct \<open>handleInvokeResult\<close> for its id, an abort for its id, its timer, or \<open>unregister\<close>.
  A further start frame of its node for the id is rejected as \<open>chunk-out-of-order\<close> too, and
  resolves the owning invoke with \<open>INVALID_REQUEST\<close>.
\<close>

theorem zero_chunk_transfer:
  assumes "distinct (invoke_ids ops)"
  shows "(\<forall>r n tb cb cc sh mr mi.
            owns r i n \<and> map_of (invokeTransfers r) i = None
            \<and> tb \<le> mr \<and> inflightBytes r + tb \<le> mi \<longrightarrow>
              startInvokeResultTransfer r i n tb cb cc (Some sh) mr mi =
                (r\<lparr>inflightBytes := inflightBytes r + tb,
                   invokeTransfers :=
                     AList.update i
                       \<lparr>t_nodeId = n, totalBytes = tb, chunkBytes = cb, chunkCount = cc,
                        nextIndex = 0, bytesReceived = 0, sha256 = toLowerCase sh, hash = [],
                        chunks = []\<rparr>
                       (invokeTransfers r)\<rparr>,
                 Inr TransferOk))
       \<and> (\<forall>t. map_of (invokeTransfers (run lib ops)) i = Some t \<and> chunkCount t = 0 \<longrightarrow>
            (\<forall>n ix d b.
               (n = t_nodeId t \<longrightarrow>
                  snd (handleInvokeResultChunk lib (run lib ops) i n ix d b)
                    = TransferFailed chunk_out_of_order ''chunk out of order''
                  \<and> resolved_with (run lib ops) i
                      (invoke_error ''INVALID_REQUEST'' ''chunk out of order'')
                      (fst (handleInvokeResultChunk lib (run lib ops) i n ix d b)))
               \<and> (n \<noteq> t_nodeId t \<longrightarrow>
                    handleInvokeResultChunk lib (run lib ops) i n ix d b
                      = (run lib ops, TransferFailed unknown_invoke_id ''unknown invoke id'')))
            \<and> (\<forall>op. \<not> live (apply_op lib (run lib ops) op) i \<longrightarrow>
                  (\<exists>n ix d b. op = HandleInvokeResultChunk i n ix d b)
                  \<or> (\<exists>n tb cb cc sh mr mi. op = StartInvokeResultTransfer i n tb cb cc sh mr mi)
                  \<or> (\<exists>n ok' pl pj e. op = HandleInvokeResult i n ok' pl pj e)
                  \<or> (\<exists>n e. op = AbortInvokeResultTransfer i n e)
                  \<or> op = TimerFired i
                  \<or> (\<exists>c. op = Unregister c))
            \<and> (\<forall>tb cb cc sh mr mi.
                  snd (startInvokeResultTransfer (run lib ops) i (t_nodeId t) tb cb cc sh mr mi)
                    = Inr (TransferFailed chunk_out_of_order ''chunk out of order'')
                  \<and> resolved_with (run lib ops) i
                      (invoke_error ''INVALID_REQUEST'' ''chunk out of order'')
                      (fst (startInvokeResultTransfer (run lib ops) i (t_nodeId t)
                              tb cb cc sh mr mi))))"
proof -
  let ?r = "run lib ops"
  have inv: "transfer_inv ?r"
    by (rule transfer_inv_run [OF assms])
  have start: "startInvokeResultTransfer r i n tb cb cc (Some sh) mr mi =
                (r\<lparr>inflightBytes := inflightBytes r + tb,
                   invokeTransfers :=
                     AList.update i
                       \<lparr>t_nodeId = n, totalBytes = tb, chunkBytes = cb, chunkCount = cc,
                        nextIndex = 0, bytesReceived = 0, sha256 = toLowerCase sh, hash = [],
                        chunks = []\<rparr>
                       (invokeTransfers r)\<rparr>,
                 Inr TransferOk)"
    if "owns r i n \<and> map_of (invokeTransfers r) i = None
        \<and> tb \<le> mr \<and> inflightBytes r + tb \<le> mi" for r n tb cb cc sh mr mi
    using that by (simp add: start_accepted)
  have chunk: "(n = t_nodeId t \<longrightarrow>
                  snd (handleInvokeResultChunk lib ?r i n ix d b)
                    = TransferFailed chunk_out_of_order ''chunk out of order''
                  \<and> resolved_with ?r i
                      (invoke_error ''INVALID_REQUEST'' ''chunk out of order'')
                      (fst (handleInvokeResultChunk lib ?r i n ix d b)))
               \<and> (n \<noteq> t_nodeId t \<longrightarrow>
                    handleInvokeResultChunk lib ?r i n ix d b
                      = (?r, TransferFailed unknown_invoke_id ''unknown invoke id''))"
    if t: "map_of (invokeTransfers ?r) i = Some t" "chunkCount t = 0" for t n ix d b
  proof (cases "n = t_nodeId t")
    case True
    have "0 \<le> nextIndex t"
      using transfer_invD(7) [OF inv t(1)] by simp
    then have "ix \<noteq> nextIndex t \<or> chunkCount t \<le> ix"
      using t(2) by auto
    from chunk_outcome(1) [OF inv t(1) True [symmetric] this] show ?thesis
      using True by simp
  next
    case False
    then have "\<not> (\<exists>t. map_of (invokeTransfers ?r) i = Some t \<and> t_nodeId t = n)"
      using t(1) by auto
    moreover have "\<not> owns ?r i n"
      using transfer_invD(4) [OF inv t(1)] False by (auto simp add: owns_iff)
    ultimately show ?thesis
      using False by (simp add: chunk_unknown)
  qed
  have paths: "(\<exists>n ix d b. op = HandleInvokeResultChunk i n ix d b)
                  \<or> (\<exists>n tb cb cc sh mr mi. op = StartInvokeResultTransfer i n tb cb cc sh mr mi)
                  \<or> (\<exists>n ok' pl pj e. op = HandleInvokeResult i n ok' pl pj e)
                  \<or> (\<exists>n e. op = AbortInvokeResultTransfer i n e)
                  \<or> op = TimerFired i
                  \<or> (\<exists>c. op = Unregister c)"
    if t: "map_of (invokeTransfers ?r) i = Some t" and gone: "\<not> live (apply_op lib ?r op) i"
    for t op
  proof -
    have alive: "live ?r i"
      using transfer_invD(4) [OF inv t] by (auto simp add: live_def)
    show ?thesis
    proof (cases op)
      case (Register cl ip now)
      then show ?thesis
        using gone alive by (simp add: live_def register_view)
    next
      case (Invoke n cmd j sent)
      then show ?thesis
        using gone invoke_live [OF alive] by simp
    next
      case (TimerFired j)
      then show ?thesis
        using gone live_other_id(1) [OF alive] by (cases "j = i") auto
    next
      case (HandleInvokeResult j n ok' pl pj e)
      then show ?thesis
        using gone live_other_id(2) [OF alive] by (cases "j = i") auto
    next
      case (StartInvokeResultTransfer j n tb cb cc sh mr mi)
      then show ?thesis
        using gone live_other_id(3) [OF alive] by (cases "j = i") auto
    next
      case (HandleInvokeResultChunk j n ix d b)
      then show ?thesis
        using gone live_other_id(4) [OF alive] by (cases "j = i") auto
    next
      case (AbortInvokeResultTransfer j n e)
      then show ?thesis
        using gone live_other_id(5) [OF alive] by (cases "j = i") auto
    qed simp
  qed
  have restart: "snd (startInvokeResultTransfer ?r i (t_nodeId t) tb cb cc sh mr mi)
                    = Inr (TransferFailed chunk_out_of_order ''chunk out of order'')
                  \<and> resolved_with ?r i
                      (invoke_error ''INVALID_REQUEST'' ''chunk out of order'')
                      (fst (startInvokeResultTransfer ?r i (t_nodeId t) tb cb cc sh mr mi))"
    if t: "map_of (invokeTransfers ?r) i = Some t" for t tb cb cc sh mr mi
  proof -
    have own: "owns ?r i (t_nodeId t)"
      using transfer_invD(4) [OF inv t] by (auto simp add: owns_iff)
    then have "startInvokeResultTransfer ?r i (t_nodeId t) tb cb cc sh mr mi =
        (resolveInvokeError ?r i (t_nodeId t) (invalid_request ''chunk out of order''),
         Inr (TransferFailed chunk_out_of_order ''chunk out of order''))"
      using t by (auto simp add: startInvokeResultTransfer_def owns_def split: option.splits)
    then show ?thesis
      using resolveInvokeError_resolved [OF own] by simp
  qed
  have accepted: "\<forall>r n tb cb cc sh mr mi.
            owns r i n \<and> map_of (invokeTransfers r) i = None
            \<and> tb \<le> mr \<and> inflightBytes r + tb \<le> mi \<longrightarrow>
              startInvokeResultTransfer r i n tb cb cc (Some sh) mr mi =
                (r\<lparr>inflightBytes := inflightBytes r + tb,
                   invokeTransfers :=
                     AList.update i
                       \<lparr>t_nodeId = n, totalBytes = tb, chunkBytes = cb, chunkCount = cc,
                        nextIndex = 0, bytesReceived = 0, sha256 = toLowerCase sh, hash = [],
                        chunks = []\<rparr>
                       (invokeTransfers r)\<rparr>,
                 Inr TransferOk)"
    using start by blast
  have stuck: "(\<forall>n ix d b.
               (n = t_nodeId t \<longrightarrow>
                  snd (handleInvokeResultChunk lib ?r i n ix d b)
                    = TransferFailed chunk_out_of_order ''chunk out of order''
                  \<and> resolved_with ?r i
                      (invoke_error ''INVALID_REQUEST'' ''chunk out of order'')
                      (fst (handleInvokeResultChunk lib ?r i n ix d b)))
               \<and> (n \<noteq> t_nodeId t \<longrightarrow>
                    handleInvokeResultChunk lib ?r i n ix d b
                      = (?r, TransferFailed unknown_invoke_id ''unknown invoke id'')))
            \<and> (\<forall>op. \<not> live (apply_op lib ?r op) i \<longrightarrow>
                  (\<exists>n ix d b. op = HandleInvokeResultChunk i n ix d b)
                  \<or> (\<exists>n tb cb cc sh mr mi. op = StartInvokeResultTransfer i n tb cb cc sh mr mi)
                  \<or> (\<exists>n ok' pl pj e. op = HandleInvokeResult i n ok' pl pj e)
                  \<or> (\<exists>n e. op = AbortInvokeResultTransfer i n e)
                  \<or> op = TimerFired i
                  \<or> (\<exists>c. op = Unregister c))
            \<and> (\<forall>tb cb cc sh mr mi.
                  snd (startInvokeResultTransfer ?r i (t_nodeId t) tb cb cc sh mr mi)
                    = Inr (TransferFailed chunk_out_of_order ''chunk out of order'')
                  \<and> resolved_with ?r i
                      (invoke_error ''INVALID_REQUEST'' ''chunk out of order'')
                      (fst (startInvokeResultTransfer ?r i (t_nodeId t) tb cb cc sh mr mi)))"
    if t: "map_of (invokeTransfers ?r) i = Some t \<and> chunkCount t = 0" for t
  proof (intro conjI)
    show "\<forall>n ix d b.
               (n = t_nodeId t \<longrightarrow>
                  snd (handleInvokeResultChunk lib ?r i n ix d b)
                    = TransferFailed chunk_out_of_order ''chunk out of order''
                  \<and> resolved_with ?r i
                      (invoke_error ''INVALID_REQUEST'' ''chunk out of order'')
                      (fst (handleInvokeResultChunk lib ?r i n ix d b)))
               \<and> (n \<noteq> t_nodeId t \<longrightarrow>
                    handleInvokeResultChunk lib ?r i n ix d b
                      = (?r, TransferFailed unknown_invoke_id ''unknown invoke id''))"
      using chunk t by (intro allI) simp
    show "\<forall>op. \<not> live (apply_op lib ?r op) i \<longrightarrow>
                  (\<exists>n ix d b. op = HandleInvokeResultChunk i n ix d b)
                  \<or> (\<exists>n tb cb cc sh mr mi. op = StartInvokeResultTransfer i n tb cb cc sh mr mi)
                  \<or> (\<exists>n ok' pl pj e. op = HandleInvokeResult i n ok' pl pj e)
                  \<or> (\<exists>n e. op = AbortInvokeResultTransfer i n e)
                  \<or> op = TimerFired i
                  \<or> (\<exists>c. op = Unregister c)"
      using paths t by (intro allI impI) simp
    show "\<forall>tb cb cc sh mr mi.
                  snd (startInvokeResultTransfer ?r i (t_nodeId t) tb cb cc sh mr mi)
                    = Inr (TransferFailed chunk_out_of_order ''chunk out of order'')
                  \<and> resolved_with ?r i
                      (invoke_error ''INVALID_REQUEST'' ''chunk out of order'')
                      (fst (startInvokeResultTransfer ?r i (t_nodeId t) tb cb cc sh mr mi))"
      using restart t by (intro allI) simp
  qed
  show ?thesis
    by (rule conjI [OF accepted]) (intro allI impI, rule stuck)
qed

theorem zero_chunk_transfer_witness:
  "snd (startInvokeResultTransfer
          (run stub_lib
            [Register buildNodeClient None 0, Invoke ''node-1'' ''system.run'' ''req-1'' True])
          ''req-1'' ''node-1'' 22 4 0 (Some ''ab'') 1024 4096)
     = Inr TransferOk
   \<and> inflightBytes (fst (startInvokeResultTransfer
          (run stub_lib
            [Register buildNodeClient None 0, Invoke ''node-1'' ''system.run'' ''req-1'' True])
          ''req-1'' ''node-1'' 22 4 0 (Some ''ab'') 1024 4096))
     = 22
   \<and> snd (handleInvokeResultChunk stub_lib
          (run stub_lib
            [Register buildNodeClient None 0,
             Invoke ''node-1'' ''system.run'' ''req-1'' True,
             StartInvokeResultTransfer ''req-1'' ''node-1'' 22 4 0 (Some ''ab'') 1024 4096])
          ''req-1'' ''node-1'' 0 ''A'' 1)
     = TransferFailed chunk_out_of_order ''chunk out of order''
   \<and> settlements (fst (handleInvokeResultChunk stub_lib
          (run stub_lib
            [Register buildNodeClient None 0,
             Invoke ''node-1'' ''system.run'' ''req-1'' True,
             StartInvokeResultTransfer ''req-1'' ''node-1'' 22 4 0 (Some ''ab'') 1024 4096])
          ''req-1'' ''node-1'' 0 ''A'' 1))
     = [(''req-1'', Resolved (invoke_error ''INVALID_REQUEST'' ''chunk out of order''))]"
proof -
  let ?r0 = "run stub_lib
            [Register buildNodeClient None 0, Invoke ''node-1'' ''system.run'' ''req-1'' True]"
  let ?ops = "[Register buildNodeClient None 0,
             Invoke ''node-1'' ''system.run'' ''req-1'' True,
             StartInvokeResultTransfer ''req-1'' ''node-1'' 22 4 0 (Some ''ab'') 1024 4096]"
  let ?t = "\<lparr>t_nodeId = ''node-1'', totalBytes = 22, chunkBytes = 4, chunkCount = 0,
            nextIndex = 0, bytesReceived = 0, sha256 = ''ab'', hash = [], chunks = []\<rparr>"
  have ids: "distinct (invoke_ids ?ops)"
    by simp
  note main = zero_chunk_transfer [OF ids, where lib = stub_lib and i = "''req-1''"]
  have pre: "owns ?r0 ''req-1'' ''node-1'' \<and> map_of (invokeTransfers ?r0) ''req-1'' = None
      \<and> (22 :: int) \<le> 1024 \<and> inflightBytes ?r0 + 22 \<le> 4096"
    by (simp add: zero_chunk_run)
  have started: "startInvokeResultTransfer ?r0 ''req-1'' ''node-1'' 22 4 0 (Some ''ab'') 1024 4096 =
      (?r0\<lparr>inflightBytes := inflightBytes ?r0 + 22,
           invokeTransfers :=
             AList.update ''req-1''
               \<lparr>t_nodeId = ''node-1'', totalBytes = 22, chunkBytes = 4, chunkCount = 0,
                nextIndex = 0, bytesReceived = 0, sha256 = toLowerCase ''ab'', hash = [],
                chunks = []\<rparr>
               (invokeTransfers ?r0)\<rparr>,
       Inr TransferOk)"
    using main pre by blast
  have t: "map_of (invokeTransfers (run stub_lib ?ops)) ''req-1'' = Some ?t \<and> chunkCount ?t = 0"
    by (simp add: zero_chunk_run)
  have "snd (handleInvokeResultChunk stub_lib (run stub_lib ?ops) ''req-1'' ''node-1'' 0 ''A'' 1)
          = TransferFailed chunk_out_of_order ''chunk out of order''
      \<and> resolved_with (run stub_lib ?ops) ''req-1''
          (invoke_error ''INVALID_REQUEST'' ''chunk out of order'')
          (fst (handleInvokeResultChunk stub_lib (run stub_lib ?ops) ''req-1'' ''node-1'' 0 ''A'' 1))"
    using main t by (simp del: apply_op.simps)
  then show ?thesis
    by (simp add: started resolved_with_def zero_chunk_run)
qed

text \<open>
  While the transfer of zero chunks is active, a direct reply for the id resolves the owning
  invoke, and with \<open>ok = true\<close>.
\<close>

theorem zero_chunk_transfer_counterexample:
  "map_of (invokeTransfers (run stub_lib
      [Register buildNodeClient None 0,
       Invoke ''node-1'' ''system.run'' ''req-1'' True,
       StartInvokeResultTransfer ''req-1'' ''node-1'' 22 4 0 (Some ''ab'') 1024 4096])) ''req-1''
   = Some \<lparr>t_nodeId = ''node-1'', totalBytes = 22, chunkBytes = 4, chunkCount = 0,
            nextIndex = 0, bytesReceived = 0, sha256 = ''ab'', hash = [], chunks = []\<rparr>
   \<and> settlements (run stub_lib
      [Register buildNodeClient None 0,
       Invoke ''node-1'' ''system.run'' ''req-1'' True,
       StartInvokeResultTransfer ''req-1'' ''node-1'' 22 4 0 (Some ''ab'') 1024 4096,
       HandleInvokeResult ''req-1'' ''node-1'' True None (Some ''{}'') None])
   = [(''req-1'', Resolved \<lparr>ok = True, payload = None, payloadJSON = Some ''{}'',
                           error = None\<rparr>)]"
  by (simp add: run_eval transfer_eval)


section \<open>Properties of the exec-host client\<close>

text \<open>
  \<open>exec_inv\<close> holds when the promise executor has run and is kept by every callback, hence in
  every state a run of events reaches, and in every state in which the line loop hands a
  frame to \<open>on_message\<close>: the call is settled exactly when the socket has been destroyed,
  \<open>resolve\<close> has been called once if it is settled and never if it is not, and no timer is
  armed once it is settled.
\<close>

lemma finish_unsettled:
  "\<not> settled s \<Longrightarrow>
   finish s v = s\<lparr>settled := True, timer := None, destroyed := True,
                  calls := calls s @ [ClearTimeout, Destroy, Resolve v]\<rparr>"
  by (simp add: finish_def)

lemma exec_inv_finish:
  assumes "settled s = destroyed s"
    and "length (filter (\<lambda>c. case c of Resolve v \<Rightarrow> True | _ \<Rightarrow> False) (calls s))
           = (if settled s then 1 else 0)"
    and "settled s \<longrightarrow> timer s = None"
  shows "exec_inv (finish s v)"
  using assms by (simp add: exec_inv_def finish_def)

lemma exec_inv_on_message:
  assumes "exec_inv s" and "\<not> settled s"
  shows "exec_inv (fst (on_message onPending s msg))"
  using assms
  by (auto simp add: on_message_def Let_def exec_inv_def finish_def)

lemma on_message_continues:
  assumes "on_message onPending s msg = (s2, False)"
  shows "settled s2 = settled s"
  using assms by (auto simp add: on_message_def Let_def split: if_splits)

lemma exec_inv_on_lines:
  assumes "exec_inv s" and "\<not> settled s"
  shows "exec_inv (on_lines parse onPending s)"
  using assms
proof (induction parse onPending s rule: on_lines.induct)
  case (1 parse onPending s)
  show ?case
  proof (cases "split_line (buffer s)")
    case None
    then show ?thesis
      using "1.prems" by (subst on_lines.simps) simp
  next
    case (Some x)
    obtain l rest where x: "x = (l, rest)"
      by (cases x)
    let ?s1 = "s\<lparr>buffer := rest\<rparr>"
    have s1: "exec_inv ?s1" "\<not> settled ?s1"
      using "1.prems" by (simp_all add: exec_inv_def)
    show ?thesis
    proof (cases "trim l = []")
      case True
      then show ?thesis
        using "1.IH"(1) [OF Some x [symmetric] True s1] Some x
        by (subst on_lines.simps) simp
    next
      case False
      show ?thesis
      proof (cases "parse (trim l)")
        case None
        then show ?thesis
          using "1.IH"(2) [OF Some x [symmetric] False None s1] Some x False
          by (subst on_lines.simps) simp
      next
        case (Some msg)
        obtain s2 ret where res: "on_message onPending ?s1 msg = (s2, ret)"
          by (cases "on_message onPending ?s1 msg")
        have inv2: "exec_inv s2"
          using exec_inv_on_message [OF s1, of onPending msg] res by simp
        show ?thesis
        proof (cases ret)
          case True
          then show ?thesis
            using inv2 res Some False x \<open>split_line (buffer s) = Some x\<close>
            by (subst on_lines.simps) simp
        next
          case ret: False
          have res': "(s2, False) = on_message onPending ?s1 msg"
            using res ret by simp
          have "\<not> settled s2"
            using on_message_continues [of onPending ?s1 msg s2] res ret s1(2) by simp
          then show ?thesis
            using "1.IH"(3) [OF \<open>split_line (buffer s) = Some x\<close> x [symmetric] False Some
                res' refl inv2]
              res ret Some False x \<open>split_line (buffer s) = Some x\<close>
            by (subst on_lines.simps) simp
        qed
      qed
    qed
  qed
qed

lemma exec_inv_step:
  assumes "exec_inv s"
  shows "exec_inv (exec_step parse onPending s ev)"
proof (cases ev)
  case (Data d)
  show ?thesis
  proof (cases "destroyed s")
    case True
    then show ?thesis
      using assms Data by (simp add: on_data_def)
  next
    case False
    then have "exec_inv (s\<lparr>buffer := buffer s @ d\<rparr>)" "\<not> settled (s\<lparr>buffer := buffer s @ d\<rparr>)"
      using assms by (simp_all add: exec_inv_def)
    then show ?thesis
      using Data False by (simp add: on_data_def exec_inv_on_lines)
  qed
next
  case TimerFires
  then show ?thesis
    using assms
    by (auto simp add: timer_fired_def exec_inv_def finish_def split: option.splits timer.splits)
next
  case SocketError
  then show ?thesis
    using assms by (auto simp add: socket_error_def exec_inv_def finish_def)
qed

lemma exec_inv_run:
  assumes "requestExecHostViaSocket socketPath token timeoutMs = Some s0"
  shows "exec_inv (exec_run parse onPending s0 evs)"
proof -
  have "exec_inv s0"
    using assms
    by (auto simp add: requestExecHostViaSocket_def exec_inv_def Let_def split: if_splits)
  then show ?thesis
    unfolding exec_run_def
    by (induction evs arbitrary: s0) (simp_all add: exec_inv_step)
qed

subsection \<open>A second exec-pending frame\<close>

text \<open>
  C8, as the code has it. An \<open>exec-pending\<close> frame is handled the same way in every state,
  the Pending state included: it does not resolve the call, it cancels the armed timer and
  arms a new extended timer with \<open>payload.timeoutMs ?? 300000\<close>, and it invokes \<open>onPending\<close>
  again when the caller passed it. One timer is armed afterwards, the new one.
\<close>

theorem exec_pending_rearms:
  assumes "field msg ''type'' = Some (JStr ''exec-pending'')"
  shows "on_message onPending s msg =
     (s\<lparr>pendingReceived := True,
        timer := Some (ExtendedTimer (extendedTimeout (field msg ''payload''))),
        calls := calls s
          @ [ClearTimeout, SetTimeout (ExtendedTimer (extendedTimeout (field msg ''payload'')))]
          @ (if onPending then [OnPending (field msg ''payload'')] else [])\<rparr>,
      False)"
  using assms by (simp add: on_message_def Let_def)

theorem exec_pending_rearms_witness:
  "on_message True
     \<lparr>settled = False, buffer = [], pendingReceived = True,
      timer = Some (ExtendedTimer (JNum 400)), destroyed = False,
      calls = [SetTimeout (BaseTimer 100), ClearTimeout, SetTimeout (ExtendedTimer (JNum 400)),
               OnPending (Some (JObj [(''timeoutMs'', JNum 400)]))]\<rparr>
     (JObj [(''type'', JStr ''exec-pending'')])
   = (\<lparr>settled = False, buffer = [], pendingReceived = True,
       timer = Some (ExtendedTimer (JNum 300000)), destroyed = False,
       calls = [SetTimeout (BaseTimer 100), ClearTimeout, SetTimeout (ExtendedTimer (JNum 400)),
                OnPending (Some (JObj [(''timeoutMs'', JNum 400)])), ClearTimeout,
                SetTimeout (ExtendedTimer (JNum 300000)), OnPending None]\<rparr>,
      False)"
  using exec_pending_rearms
    [where msg = "JObj [(''type'', JStr ''exec-pending'')]" and onPending = True
       and s = "\<lparr>settled = False, buffer = [], pendingReceived = True,
      timer = Some (ExtendedTimer (JNum 400)), destroyed = False,
      calls = [SetTimeout (BaseTimer 100), ClearTimeout, SetTimeout (ExtendedTimer (JNum 400)),
               OnPending (Some (JObj [(''timeoutMs'', JNum 400)]))]\<rparr>"]
  by (simp add: extendedTimeout_def pendingTimeoutMs_def)

text \<open>
  Two \<open>exec-pending\<close> frames in a row: the second cancels the extended timer of the first,
  sets another and calls \<open>onPending\<close> a second time.
\<close>

theorem exec_pending_counterexample:
  "calls (exec_run stub_parse True
            (the (requestExecHostViaSocket ''/tmp/exec.sock'' ''token'' (Some 100)))
            [Data (ascii ''pending'' @ [0x0A]), Data (ascii ''pending'' @ [0x0A])])
   = [SetTimeout (BaseTimer 100),
      ClearTimeout, SetTimeout (ExtendedTimer (JNum 400)),
      OnPending (Some (JObj [(''reason'', JStr ''awaiting-approval''), (''timeoutMs'', JNum 400)])),
      ClearTimeout, SetTimeout (ExtendedTimer (JNum 400)),
      OnPending (Some (JObj [(''reason'', JStr ''awaiting-approval''), (''timeoutMs'', JNum 400)]))]"
  by code_simp

subsection \<open>An exec-res frame without a valid outcome\<close>

lemma split_line_first:
  "0x0A \<notin> set line \<Longrightarrow> split_line (line @ 0x0A # rest) = Some (line, rest)"
  by (induction line) auto

lemma on_data_returns:
  assumes "\<not> destroyed s" and "buffer s = []" and "0x0A \<notin> set line"
    and "trim line \<noteq> []" and "parse (trim line) = Some msg"
    and "on_message onPending (s\<lparr>buffer := rest\<rparr>) msg = (s2, True)"
  shows "on_data parse onPending s (line @ 0x0A # rest) = s2"
  using assms
  by (simp add: on_data_def split_line_first
      on_lines.simps [of parse onPending "s\<lparr>buffer := line @ 0x0A # rest\<rparr>"])

text \<open>
  C9. An \<open>exec-res\<close> frame that has neither \<open>ok = true\<close> with a truthy payload nor \<open>ok = false\<close>
  with a truthy error, received while the call is unsettled, resolves the call with \<open>null\<close>:
  the timer is cancelled, the socket destroyed, \<open>resolve(null)\<close> is the only call of
  \<open>resolve\<close>, and the handler returns. Seen from the socket: when the frame is the first line
  of a data event, the data handler settles the call in this way and returns at once, leaving
  whatever follows the line in the buffer, unread.
\<close>

theorem exec_res_invalid_shape:
  assumes "field msg ''type'' = Some (JStr ''exec-res'')"
    and "\<not> (field msg ''ok'' = Some (JBool True) \<and> truthy (field msg ''payload''))"
    and "\<not> (field msg ''ok'' = Some (JBool False) \<and> truthy (field msg ''error''))"
    and "exec_inv s" and "\<not> settled s"
  shows "on_message onPending s msg =
           (s\<lparr>settled := True, timer := None, destroyed := True,
              calls := calls s @ [ClearTimeout, ClearTimeout, Destroy, Resolve None]\<rparr>,
            True)
       \<and> filter (\<lambda>c. case c of Resolve v \<Rightarrow> True | _ \<Rightarrow> False)
             (calls (fst (on_message onPending s msg)))
           = [Resolve None]
       \<and> (\<forall>parse line rest.
            buffer s = [] \<and> 0x0A \<notin> set line \<and> trim line \<noteq> []
            \<and> parse (trim line) = Some msg \<longrightarrow>
              on_data parse onPending s (line @ 0x0A # rest) =
                s\<lparr>settled := True, buffer := rest, timer := None, destroyed := True,
                  calls := calls s @ [ClearTimeout, ClearTimeout, Destroy, Resolve None]\<rparr>)"
proof -
  have none: "filter (\<lambda>c. case c of Resolve v \<Rightarrow> True | _ \<Rightarrow> False) (calls s) = []"
    using assms(4,5) by (simp add: exec_inv_def)
  have open_socket: "\<not> destroyed s"
    using assms(4,5) by (simp add: exec_inv_def)
  have frame: "on_message onPending s' msg =
           (s'\<lparr>settled := True, timer := None, destroyed := True,
              calls := calls s' @ [ClearTimeout, ClearTimeout, Destroy, Resolve None]\<rparr>,
            True)" if "\<not> settled s'" for s'
    using assms(1-3) that by (auto simp add: on_message_def Let_def finish_def)
  have "on_data parse onPending s (line @ 0x0A # rest) =
                s\<lparr>settled := True, buffer := rest, timer := None, destroyed := True,
                  calls := calls s @ [ClearTimeout, ClearTimeout, Destroy, Resolve None]\<rparr>"
    if line: "buffer s = [] \<and> 0x0A \<notin> set line \<and> trim line \<noteq> []
            \<and> parse (trim line) = Some msg" for parse line rest
  proof -
    have "on_message onPending (s\<lparr>buffer := rest\<rparr>) msg =
           (s\<lparr>settled := True, buffer := rest, timer := None, destroyed := True,
              calls := calls s @ [ClearTimeout, ClearTimeout, Destroy, Resolve None]\<rparr>,
            True)"
      using frame [of "s\<lparr>buffer := rest\<rparr>"] assms(5) by simp
    then show ?thesis
      using line open_socket by (simp add: on_data_returns)
  qed
  then show ?thesis
    using frame [OF assms(5)] none by simp
qed

theorem exec_res_invalid_shape_witness:
  "on_message True
     (the (requestExecHostViaSocket ''/tmp/exec.sock'' ''token'' (Some 100)))
     (JObj [(''type'', JStr ''exec-res''), (''ok'', JBool True)])
   = (\<lparr>settled = True, buffer = [], pendingReceived = False, timer = None, destroyed = True,
       calls = [SetTimeout (BaseTimer 100), ClearTimeout, ClearTimeout, Destroy, Resolve None]\<rparr>,
      True)
   \<and> on_data stub_parse True
       (the (requestExecHostViaSocket ''/tmp/exec.sock'' ''token'' (Some 100)))
       (ascii ''bad'' @ 0x0A # ascii ''res'' @ [0x0A])
     = \<lparr>settled = True, buffer = ascii ''res'' @ [0x0A], pendingReceived = False, timer = None,
        destroyed = True,
        calls = [SetTimeout (BaseTimer 100), ClearTimeout, ClearTimeout, Destroy, Resolve None]\<rparr>"
proof -
  let ?s = "the (requestExecHostViaSocket ''/tmp/exec.sock'' ''token'' (Some 100))"
  let ?msg = "JObj [(''type'', JStr ''exec-res''), (''ok'', JBool True)]"
  have s: "?s = \<lparr>settled = False, buffer = [], pendingReceived = False,
      timer = Some (BaseTimer 100), destroyed = False, calls = [SetTimeout (BaseTimer 100)]\<rparr>"
    by (simp add: requestExecHostViaSocket_def)
  have a: "field ?msg ''type'' = Some (JStr ''exec-res'')"
    and b: "\<not> (field ?msg ''ok'' = Some (JBool True) \<and> truthy (field ?msg ''payload''))"
    and c: "\<not> (field ?msg ''ok'' = Some (JBool False) \<and> truthy (field ?msg ''error''))"
    by simp_all
  have d: "exec_inv ?s" and e: "\<not> settled ?s"
    by (simp_all add: s exec_inv_def)
  have line: "buffer ?s = [] \<and> 0x0A \<notin> set (ascii ''bad'') \<and> trim (ascii ''bad'') \<noteq> []
      \<and> stub_parse (trim (ascii ''bad'')) = Some ?msg"
    by (simp add: s trim_def is_space_def stub_parse_def ascii_def)
  note main = exec_res_invalid_shape [OF a b c d e, of True]
  have frame: "on_message True ?s ?msg =
      (?s\<lparr>settled := True, timer := None, destroyed := True,
          calls := calls ?s @ [ClearTimeout, ClearTimeout, Destroy, Resolve None]\<rparr>, True)"
    using main by blast
  have data: "on_data stub_parse True ?s (ascii ''bad'' @ 0x0A # ascii ''res'' @ [0x0A]) =
      ?s\<lparr>settled := True, buffer := ascii ''res'' @ [0x0A], timer := None, destroyed := True,
          calls := calls ?s @ [ClearTimeout, ClearTimeout, Destroy, Resolve None]\<rparr>"
    using main line by blast
  show ?thesis
    unfolding frame data by (simp add: s)
qed

end
